theory Spec2Isabelle
  imports Main "HOL-Library.Monad_Syntax"
begin

unbundle bit_operations_syntax

section \<open>Boards, the store and bounds-checked accesses\<close>

text \<open>
  The type \<^verbatim>\<open>board\<close> and the constants \<^verbatim>\<open>WIDTH\<close> and \<^verbatim>\<open>HEIGHT\<close> come from
  \<^verbatim>\<open>liblife.h\<close>, which is not part of the sources; the two constants are therefore
  parameters \<open>W\<close> and \<open>H\<close> of every definition below.  The source indexes a board as
  \<^verbatim>\<open>b[row][column]\<close>; a board is modelled as a list of rows.  Cell values are C
  integers after promotion (\<^verbatim>\<open>n\<close> and \<^verbatim>\<open>k\<close> are \<^verbatim>\<open>int\<close>); they are modelled as
  \<open>int\<close>, which is exact as long as the sums do not overflow (cells holding 0 or 1 give
  sums of at most 8).

  \<^verbatim>\<open>Avery\<close> receives two pointers.  The store maps an address to the board it holds, so
  that a call with both pointers equal is an input of the model as it is of the code.
  The component \<open>writes\<close> is a ghost trace: the index pairs \<open>(row, column)\<close> of the
  assignments to \<^verbatim>\<open>nxt\<close>, in the order they are executed.
\<close>

type_synonym cell = int
type_synonym board = "cell list list"
type_synonym addr = nat

record state =
  heap :: "addr \<Rightarrow> board"
  writes :: "(int \<times> int) list"

definition in_bounds :: "board \<Rightarrow> int \<Rightarrow> int \<Rightarrow> bool" where
  "in_bounds b r c \<longleftrightarrow>
     0 \<le> r \<and> nat r < length b \<and> 0 \<le> c \<and> nat c < length (b ! nat r)"

definition cell_at :: "board \<Rightarrow> int \<Rightarrow> int \<Rightarrow> cell" where
  "cell_at b r c = b ! nat r ! nat c"

definition board_upd :: "board \<Rightarrow> int \<Rightarrow> int \<Rightarrow> cell \<Rightarrow> board" where
  "board_upd b r c v = b[nat r := (b ! nat r)[nat c := v]]"

text \<open>A read \<^verbatim>\<open>prv[r][c]\<close>: \<open>None\<close> when an index is outside the array.\<close>

definition rd :: "state \<Rightarrow> addr \<Rightarrow> int \<Rightarrow> int \<Rightarrow> cell option" where
  "rd s p r c =
     (if in_bounds (heap s p) r c then Some (cell_at (heap s p) r c) else None)"

text \<open>A write \<^verbatim>\<open>nxt[r][c] = v\<close>: \<open>None\<close> when an index is outside the array.\<close>

definition wr :: "state \<Rightarrow> addr \<Rightarrow> int \<Rightarrow> int \<Rightarrow> cell \<Rightarrow> state option" where
  "wr s q r c v =
     (if in_bounds (heap s q) r c
      then Some (s\<lparr>heap := (heap s)(q := board_upd (heap s q) r c v),
                   writes := writes s @ [(r, c)]\<rparr>)
      else None)"

section \<open>The transition function\<close>

text \<open>The expression \<^verbatim>\<open>(k | n) == 3\<close>, whose value in C is the integer 1 or 0.\<close>

definition life_bit :: "int \<Rightarrow> int \<Rightarrow> cell" where
  "life_bit k n = (if (k OR n) = 3 then 1 else 0)"

text \<open>The sum of the reads \<^verbatim>\<open>prv[r][c]\<close> at the listed index pairs.\<close>

fun rd_sum :: "state \<Rightarrow> addr \<Rightarrow> (int \<times> int) list \<Rightarrow> int option" where
  "rd_sum s p [] = Some 0"
| "rd_sum s p ((r, c) # rcs) =
     do { x \<leftarrow> rd s p r c; y \<leftarrow> rd_sum s p rcs; Some (x + y) }"

text \<open>
  Every assignment to \<^verbatim>\<open>nxt\<close> in \<^verbatim>\<open>Avery\<close> has the same shape:
  \<^verbatim>\<open>n = prv[..] + ... + prv[..]; nxt[tr][tc] = (prv[kr][kc] | n) == 3;\<close>
  The reads do not change the store, so their order among themselves is immaterial.
\<close>

definition cell_stmt ::
  "addr \<Rightarrow> addr \<Rightarrow> (int \<times> int) list \<Rightarrow> int \<times> int \<Rightarrow> int \<times> int \<Rightarrow> state \<Rightarrow> state option" where
  "cell_stmt prv nxt nbrs kpos tpos s =
     do { n \<leftarrow> rd_sum s prv nbrs;
          k \<leftarrow> rd s prv (fst kpos) (snd kpos);
          wr s nxt (fst tpos) (snd tpos) (life_bit k n) }"

text \<open>The loop \<^verbatim>\<open>for (i = a; i < n; ++i) body\<close>.\<close>

function for_loop :: "int \<Rightarrow> int \<Rightarrow> (int \<Rightarrow> state \<Rightarrow> state option) \<Rightarrow> state \<Rightarrow> state option" where
  "for_loop i n body s =
     (if i < n then do { s' \<leftarrow> body i s; for_loop (i + 1) n body s' } else Some s)"
  by pat_completeness auto
termination
  by (relation "measure (\<lambda>(i, n, body, s). nat (n - i))") auto

declare for_loop.simps [simp del]

text \<open>
  \<^verbatim>\<open>Avery\<close> (\<^verbatim>\<open>life.c\<close>, lines 63 to 109), statement by statement: the four corner
  assignments (lines 68 to 78), the interior double loop (lines 80 to 88), the loop over
  the right and left edges (lines 90 to 98) and the loop over the bottom and top edges
  (lines 100 to 108).  The third corner assignment computes \<^verbatim>\<open>n\<close> from rows
  \<^verbatim>\<open>HEIGHT-2\<close> and \<^verbatim>\<open>HEIGHT-1\<close> but reads \<^verbatim>\<open>prv[WIDTH-1][0]\<close> and writes
  \<^verbatim>\<open>nxt[WIDTH-1][0]\<close>; the model keeps that.  The first \<open>None\<close> ends the run.
\<close>

definition Avery :: "int \<Rightarrow> int \<Rightarrow> addr \<Rightarrow> addr \<Rightarrow> state \<Rightarrow> state option" where
  "Avery W H prv nxt s0 =
     do {
       s1 \<leftarrow> cell_stmt prv nxt [(0, 1), (1, 1), (1, 0)] (0, 0) (0, 0) s0;
       s2 \<leftarrow> cell_stmt prv nxt [(0, W - 2), (1, W - 2), (1, W - 1)] (0, W - 1) (0, W - 1) s1;
       s3 \<leftarrow> cell_stmt prv nxt [(H - 2, 0), (H - 2, 1), (H - 1, 1)] (W - 1, 0) (W - 1, 0) s2;
       s4 \<leftarrow> cell_stmt prv nxt [(H - 2, W - 2), (H - 1, W - 2), (H - 2, W - 1)]
               (H - 1, W - 1) (H - 1, W - 1) s3;
       s5 \<leftarrow> for_loop 1 (H - 1) (\<lambda>i.
               for_loop 1 (W - 1) (\<lambda>j.
                 cell_stmt prv nxt
                   [(i - 1, j - 1), (i - 1, j), (i - 1, j + 1),
                    (i, j - 1), (i, j + 1), (i + 1, j - 1),
                    (i + 1, j), (i + 1, j + 1)] (i, j) (i, j))) s4;
       s6 \<leftarrow> for_loop 1 (H - 1) (\<lambda>i s.
               do {
                 t \<leftarrow> cell_stmt prv nxt
                        [(i - 1, W - 1), (i + 1, W - 1), (i + 1, W - 2),
                         (i - 1, W - 2), (i, W - 2)] (i, W - 1) (i, W - 1) s;
                 cell_stmt prv nxt
                   [(i - 1, 1), (i + 1, 1), (i, 1), (i - 1, 0), (i + 1, 0)] (i, 0) (i, 0) t
               }) s5;
       for_loop 1 (W - 1) (\<lambda>j s.
         do {
           t \<leftarrow> cell_stmt prv nxt
                  [(H - 1, j - 1), (H - 1, j + 1), (H - 2, j),
                   (H - 2, j - 1), (H - 2, j + 1)] (H - 1, j) (H - 1, j) s;
           cell_stmt prv nxt
             [(1, j - 1), (1, j + 1), (1, j), (0, j - 1), (0, j + 1)] (0, j) (0, j) t
         }) s6
     }"

section \<open>The reference implementation\<close>

text \<open>
  The naive implementation the equivalence claims compare with, written from the
  specification: the live-neighbour count of a cell is the sum over the eight offsets of
  the cells that lie inside the board (an explicit bounds check per offset), and the rule
  is B3/S23.
\<close>

definition offsets :: "(int \<times> int) list" where
  "offsets = [(-1, -1), (-1, 0), (-1, 1), (0, -1), (0, 1), (1, -1), (1, 0), (1, 1)]"

definition naive_count :: "int \<Rightarrow> int \<Rightarrow> board \<Rightarrow> int \<Rightarrow> int \<Rightarrow> int" where
  "naive_count W H b r c =
     sum_list (map (\<lambda>(dr, dc).
       if 0 \<le> r + dr \<and> r + dr < H \<and> 0 \<le> c + dc \<and> c + dc < W
       then cell_at b (r + dr) (c + dc) else 0) offsets)"

definition naive_cell :: "int \<Rightarrow> int \<Rightarrow> board \<Rightarrow> int \<Rightarrow> int \<Rightarrow> cell" where
  "naive_cell W H b r c =
     (let n = naive_count W H b r c in
      if cell_at b r c = 1 then (if n = 2 \<or> n = 3 then 1 else 0)
      else (if n = 3 then 1 else 0))"

section \<open>Well-formed boards and the vocabulary of the proofs\<close>

text \<open>A board of the declared dimensions: \<open>H\<close> rows of \<open>W\<close> cells each.\<close>

definition wf_board :: "int \<Rightarrow> int \<Rightarrow> board \<Rightarrow> bool" where
  "wf_board W H b \<longleftrightarrow> int (length b) = H \<and> list_all (\<lambda>row. int (length row) = W) b"

text \<open>Every cell holds 0 or 1.\<close>

definition binary_board :: "board \<Rightarrow> bool" where
  "binary_board b \<longleftrightarrow> list_all (list_all (\<lambda>x. x = 0 \<or> x = 1)) b"

definition inside :: "int \<Rightarrow> int \<Rightarrow> int \<Rightarrow> int \<Rightarrow> bool" where
  "inside W H r c \<longleftrightarrow> 0 \<le> r \<and> r < H \<and> 0 \<le> c \<and> c < W"

text \<open>The value the bit trick gives a cell from the neighbour count of the reference.\<close>

definition trick_cell :: "int \<Rightarrow> int \<Rightarrow> board \<Rightarrow> int \<Rightarrow> int \<Rightarrow> cell" where
  "trick_cell W H b r c = life_bit (cell_at b r c) (naive_count W H b r c)"

text \<open>
  \<open>chg_on\<close>: between two states only the board at \<open>q\<close> changed, it kept its dimensions,
  and its cells outside the region \<open>R\<close> kept their values.  \<open>upd_on\<close>: moreover the cells
  of the region hold the next generation of the board at \<open>p\<close>.
\<close>

definition chg_on :: "int \<Rightarrow> int \<Rightarrow> addr \<Rightarrow> (int \<times> int) set \<Rightarrow> state \<Rightarrow> state \<Rightarrow> bool" where
  "chg_on W H q R s s' \<longleftrightarrow>
     (\<forall>a. a \<noteq> q \<longrightarrow> heap s' a = heap s a) \<and> wf_board W H (heap s' q) \<and>
     (\<forall>r c. inside W H r c \<and> (r, c) \<notin> R \<longrightarrow>
        cell_at (heap s' q) r c = cell_at (heap s q) r c)"

definition upd_on ::
  "int \<Rightarrow> int \<Rightarrow> addr \<Rightarrow> addr \<Rightarrow> (int \<times> int) set \<Rightarrow> state \<Rightarrow> state \<Rightarrow> bool" where
  "upd_on W H p q R s s' \<longleftrightarrow>
     chg_on W H q R s s' \<and>
     (\<forall>r c. inside W H r c \<and> (r, c) \<in> R \<longrightarrow>
        cell_at (heap s' q) r c = trick_cell W H (heap s p) r c)"

section \<open>The command line\<close>

text \<open>
  \<^verbatim>\<open>main\<close> as a function from the argument vector (\<^verbatim>\<open>argc\<close> is its length) to the
  effects it has, in order, and the status it returns.  \<^verbatim>\<open>add_method\<close> and
  \<^verbatim>\<open>run_game\<close> belong to the library \<^verbatim>\<open>liblife.a\<close>, which is not part of the sources:
  a call is recorded as an event with its argument, and is taken to return.
\<close>

datatype exit_status = EXIT_SUCCESS | EXIT_FAILURE

datatype event = Stderr string | Add_method string | Run_game bool

text \<open>The text \<^verbatim>\<open>fprintf\<close> writes for the format \<^verbatim>\<open>"Usage: %s [-nw]\n\t-nw  No window\n"\<close>.\<close>

definition usage :: "string \<Rightarrow> string" where
  "usage prog =
     ''Usage: '' @ prog @ '' [-nw]'' @ [CHR 0x0A, CHR 0x09] @ ''-nw  No window'' @ [CHR 0x0A]"

definition main :: "string list \<Rightarrow> event list \<times> exit_status" where
  "main argv =
     (let argc = length argv in
      if argc > 2 \<or> (argc = 2 \<and> argv ! 1 \<noteq> ''-nw'')
      then ([Stderr (usage (argv ! 0))], EXIT_FAILURE)
      else ([Add_method ''Avery'', Run_game (argc = 2 \<and> argv ! 1 = ''-nw'')],
            EXIT_SUCCESS))"

section \<open>Concrete inputs\<close>

text \<open>
  A caller's store: the previous board at address 0, the output buffer at address 1,
  nothing written yet.
\<close>

definition two_boards :: "board \<Rightarrow> board \<Rightarrow> state" where
  "two_boards prv nxt = \<lparr>heap = (\<lambda>a. if a = 0 then prv else nxt), writes = []\<rparr>"

text \<open>Boards of width 3 and height 3.\<close>

definition dead_3x3 :: board where
  "dead_3x3 = [[0, 0, 0], [0, 0, 0], [0, 0, 0]]"

definition blinker_3x3 :: board where
  "blinker_3x3 = [[0, 1, 0], [0, 1, 0], [0, 1, 0]]"

text \<open>Boards of width 6 and height 6 that differ in the top left corner only.\<close>

definition glider_6x6 :: board where
  "glider_6x6 =
     [[0, 1, 0, 0, 0, 0], [0, 0, 1, 0, 0, 0], [1, 1, 1, 0, 1, 1],
      [0, 0, 0, 0, 1, 1], [0, 0, 0, 1, 0, 0], [0, 0, 0, 1, 1, 0]]"

definition glider_corner_6x6 :: board where
  "glider_corner_6x6 = board_upd glider_6x6 0 0 1"

definition dead_6x6 :: board where
  "dead_6x6 =
     [[0, 0, 0, 0, 0, 0], [0, 0, 0, 0, 0, 0], [0, 0, 0, 0, 0, 0],
      [0, 0, 0, 0, 0, 0], [0, 0, 0, 0, 0, 0], [0, 0, 0, 0, 0, 0]]"

text \<open>Boards of width 3 and height 4, and of width 4 and height 3.\<close>

definition dead_3x4 :: board where
  "dead_3x4 = [[0, 0, 0], [0, 0, 0], [0, 0, 0], [0, 0, 0]]"

definition single_3x4 :: board where
  "single_3x4 = [[0, 0, 0], [0, 1, 0], [0, 0, 0], [0, 0, 0]]"

definition birth_3x4 :: board where
  "birth_3x4 = [[0, 0, 0], [0, 0, 0], [1, 1, 0], [0, 1, 0]]"

definition corner_3x4 :: board where
  "corner_3x4 = [[1, 0, 0], [0, 0, 0], [0, 0, 0], [0, 0, 0]]"

definition stale_3x4 :: board where
  "stale_3x4 = [[0, 0, 0], [0, 0, 0], [0, 0, 0], [1, 0, 0]]"

definition dead_4x3 :: board where
  "dead_4x3 = [[0, 0, 0, 0], [0, 0, 0, 0], [0, 0, 0, 0]]"

section \<open>Board accesses on well-formed boards\<close>

lemma wf_row:
  assumes "wf_board W H b" "0 \<le> r" "r < H"
  shows "nat r < length b" and "int (length (b ! nat r)) = W"
proof -
  show lt: "nat r < length b" using assms by (simp add: wf_board_def) linarith
  from assms(1) have "\<forall>n<length b. int (length (b ! n)) = W"
    by (simp add: wf_board_def list_all_length)
  with lt show "int (length (b ! nat r)) = W" by blast
qed

lemma wf_in_bounds:
  assumes "wf_board W H b"
  shows "in_bounds b r c \<longleftrightarrow> inside W H r c"
proof (cases "0 \<le> r \<and> r < H")
  case True
  with wf_row[OF assms, of r] show ?thesis
    by (auto simp: in_bounds_def inside_def)
next
  case False
  with assms show ?thesis
    by (auto simp: in_bounds_def inside_def wf_board_def)
qed

lemma wf_board_upd:
  assumes "wf_board W H b"
  shows "wf_board W H (board_upd b r c v)"
proof -
  from assms have len: "int (length b) = H" and rows: "\<forall>n<length b. int (length (b ! n)) = W"
    by (simp_all add: wf_board_def list_all_length)
  have "int (length (b[nat r := (b ! nat r)[nat c := v]] ! n)) = W" if "n < length b" for n
    using that rows by (cases "n = nat r") simp_all
  with len show ?thesis
    by (simp add: wf_board_def board_upd_def list_all_length)
qed

lemma cell_at_board_upd:
  assumes "wf_board W H b" "inside W H r c" "inside W H r' c'"
  shows "cell_at (board_upd b r c v) r' c' = (if r' = r \<and> c' = c then v else cell_at b r' c')"
proof -
  from assms have r: "nat r < length b" "int (length (b ! nat r)) = W"
    by (auto simp: inside_def intro: wf_row)
  from assms(2) r(2) have c: "nat c < length (b ! nat r)"
    unfolding inside_def by linarith
  from assms have ne: "r' \<noteq> r \<Longrightarrow> nat r' \<noteq> nat r" "c' \<noteq> c \<Longrightarrow> nat c' \<noteq> nat c"
    by (auto simp: inside_def)
  show ?thesis
    using r c ne by (auto simp: cell_at_def board_upd_def nth_list_update)
qed

lemma board_eqI:
  assumes "wf_board W H b1" "wf_board W H b2"
    and "\<forall>r c. inside W H r c \<longrightarrow> cell_at b1 r c = cell_at b2 r c"
  shows "b1 = b2"
proof (rule nth_equalityI)
  show len: "length b1 = length b2" using assms(1,2) by (simp add: wf_board_def)
  fix i assume i: "i < length b1"
  then have r: "0 \<le> int i" "int i < H" using assms(1) by (auto simp: wf_board_def)
  from wf_row[OF assms(1) r] wf_row[OF assms(2) r]
  have l1: "int (length (b1 ! i)) = W" and l2: "int (length (b2 ! i)) = W" by simp_all
  show "b1 ! i = b2 ! i"
  proof (rule nth_equalityI)
    show "length (b1 ! i) = length (b2 ! i)" using l1 l2 by simp
    fix j assume "j < length (b1 ! i)"
    with l1 r have "inside W H (int i) (int j)" by (auto simp: inside_def)
    with assms(3) have "cell_at b1 (int i) (int j) = cell_at b2 (int i) (int j)" by blast
    then show "b1 ! i ! j = b2 ! i ! j" by (simp add: cell_at_def)
  qed
qed

lemma rd_None_iff: "rd s p r c = None \<longleftrightarrow> \<not> in_bounds (heap s p) r c"
  by (simp add: rd_def)

lemma wr_None_iff: "wr s q r c v = None \<longleftrightarrow> \<not> in_bounds (heap s q) r c"
  by (simp add: wr_def)

lemma rd_sum_inside:
  assumes "wf_board W H (heap s p)" "\<forall>x\<in>set nbrs. inside W H (fst x) (snd x)"
  shows "rd_sum s p nbrs = Some (sum_list (map (\<lambda>x. cell_at (heap s p) (fst x) (snd x)) nbrs))"
  using assms
  by (induction nbrs) (auto simp: rd_def wf_in_bounds)

lemma cell_stmt_inside:
  assumes "wf_board W H (heap s p)" "wf_board W H (heap s q)"
    and "\<forall>x\<in>set nbrs. inside W H (fst x) (snd x)"
    and "inside W H (fst kpos) (snd kpos)" "inside W H (fst tpos) (snd tpos)"
  shows "cell_stmt p q nbrs kpos tpos s =
    Some (s\<lparr>heap := (heap s)(q := board_upd (heap s q) (fst tpos) (snd tpos)
               (life_bit (cell_at (heap s p) (fst kpos) (snd kpos))
                  (sum_list (map (\<lambda>x. cell_at (heap s p) (fst x) (snd x)) nbrs)))),
             writes := writes s @ [tpos]\<rparr>)"
  using assms
  by (simp add: cell_stmt_def rd_sum_inside rd_def wr_def wf_in_bounds)

lemma cell_stmt_chg:
  assumes "wf_board W H (heap s p)" "wf_board W H (heap s q)"
    and "\<forall>x\<in>set nbrs. inside W H (fst x) (snd x)"
    and "inside W H (fst kpos) (snd kpos)" "inside W H (fst tpos) (snd tpos)"
  shows "\<exists>s'. cell_stmt p q nbrs kpos tpos s = Some s' \<and> chg_on W H q {tpos} s s'"
  using assms
  by (cases tpos) (auto simp: cell_stmt_inside chg_on_def wf_board_upd cell_at_board_upd)

lemma cell_stmt_upd:
  assumes "p \<noteq> q" "wf_board W H (heap s p)" "wf_board W H (heap s q)"
    and "\<forall>x\<in>set nbrs. inside W H (fst x) (snd x)"
    and "inside W H r c"
    and "sum_list (map (\<lambda>x. cell_at (heap s p) (fst x) (snd x)) nbrs) = naive_count W H (heap s p) r c"
  shows "\<exists>s'. cell_stmt p q nbrs (r, c) (r, c) s = Some s' \<and> upd_on W H p q {(r, c)} s s'"
  using assms
  by (auto simp: cell_stmt_inside upd_on_def chg_on_def wf_board_upd cell_at_board_upd trick_cell_def)

lemma for_loop_rule:
  assumes "i \<le> n" "I i s"
    and "\<And>k t. i \<le> k \<Longrightarrow> k < n \<Longrightarrow> I k t \<Longrightarrow> \<exists>t'. body k t = Some t' \<and> I (k + 1) t'"
  shows "\<exists>s'. for_loop i n body s = Some s' \<and> I n s'"
  using assms
proof (induction "nat (n - i)" arbitrary: i s)
  case 0
  then have "i = n" by simp
  with 0 show ?case by (simp add: for_loop.simps)
next
  case (Suc m)
  then have lt: "i < n" by linarith
  from Suc.prems(3)[OF _ lt Suc.prems(2)] obtain t where t: "body i s = Some t" "I (i + 1) t"
    by auto
  have "\<exists>s'. for_loop (i + 1) n body t = Some s' \<and> I n s'"
  proof (rule Suc.hyps(1))
    show "m = nat (n - (i + 1))" using Suc.hyps(2) by linarith
    show "i + 1 \<le> n" using lt by simp
    show "I (i + 1) t" by (rule t)
    show "\<And>k t. i + 1 \<le> k \<Longrightarrow> k < n \<Longrightarrow> I k t \<Longrightarrow> \<exists>t'. body k t = Some t' \<and> I (k + 1) t'"
      using Suc.prems(3) by simp
  qed
  with t lt show ?case by (subst for_loop.simps) simp
qed

section \<open>Regions written by the statements and loops\<close>

lemma chg_on_frame: "chg_on W H q R s s' \<Longrightarrow> a \<noteq> q \<Longrightarrow> heap s' a = heap s a"
  by (simp add: chg_on_def)

lemma upd_on_frame: "upd_on W H p q R s s' \<Longrightarrow> a \<noteq> q \<Longrightarrow> heap s' a = heap s a"
  by (simp add: upd_on_def chg_on_def)

lemma upd_on_wf: "upd_on W H p q R s s' \<Longrightarrow> wf_board W H (heap s' q)"
  by (simp add: upd_on_def chg_on_def)

lemma chg_on_wf: "chg_on W H q R s s' \<Longrightarrow> wf_board W H (heap s' q)"
  by (simp add: chg_on_def)

lemma upd_on_refl: "wf_board W H (heap s q) \<Longrightarrow> upd_on W H p q {} s s"
  by (simp add: upd_on_def chg_on_def)

lemma upd_on_trans:
  assumes "p \<noteq> q" "upd_on W H p q R1 s s1" "upd_on W H p q R2 s1 s2"
  shows "upd_on W H p q (R1 \<union> R2) s s2"
proof -
  from assms have "heap s1 p = heap s p" by (simp add: upd_on_frame)
  with assms(2,3) show ?thesis
    unfolding upd_on_def chg_on_def by (simp (no_asm_simp)) metis
qed

lemma chg_then_upd:
  assumes "p \<noteq> q" "chg_on W H q R0 s s1" "upd_on W H p q R2 s1 s2" "R0 \<subseteq> R2"
  shows "upd_on W H p q R2 s s2"
proof -
  from assms have "heap s1 p = heap s p" by (simp add: chg_on_frame)
  with assms(2,3,4) show ?thesis
    unfolding upd_on_def chg_on_def by (simp (no_asm_simp)) (metis subsetD)
qed

lemma step_upd:
  assumes "p \<noteq> q" "wf_board W H (heap s p)" "upd_on W H p q R s t"
    and "\<forall>x\<in>set nbrs. inside W H (fst x) (snd x)"
    and "inside W H r c"
    and "sum_list (map (\<lambda>x. cell_at (heap s p) (fst x) (snd x)) nbrs) = naive_count W H (heap s p) r c"
  shows "\<exists>t'. cell_stmt p q nbrs (r, c) (r, c) t = Some t' \<and> upd_on W H p q (insert (r, c) R) s t'"
proof -
  from assms have eq: "heap t p = heap s p" and wfq: "wf_board W H (heap t q)"
    by (simp_all add: upd_on_frame upd_on_wf)
  have "\<exists>t'. cell_stmt p q nbrs (r, c) (r, c) t = Some t' \<and> upd_on W H p q {(r, c)} t t'"
    by (rule cell_stmt_upd) (use assms eq wfq in simp_all)
  then obtain t' where t': "cell_stmt p q nbrs (r, c) (r, c) t = Some t'" "upd_on W H p q {(r, c)} t t'"
    by auto
  from upd_on_trans[OF assms(1,3) t'(2)] t'(1) show ?thesis by simp
qed

lemma count_interior:
  assumes "1 \<le> i" "i < H - 1" "1 \<le> j" "j < W - 1"
  shows "sum_list (map (\<lambda>x. cell_at b (fst x) (snd x))
           [(i - 1, j - 1), (i - 1, j), (i - 1, j + 1), (i, j - 1), (i, j + 1), (i + 1, j - 1),
            (i + 1, j), (i + 1, j + 1)]) = naive_count W H b i j"
  using assms by (simp add: naive_count_def offsets_def)

lemma count_tl:
  assumes "3 \<le> W" "3 \<le> H"
  shows "sum_list (map (\<lambda>x. cell_at b (fst x) (snd x)) [(0, 1), (1, 1), (1, 0)]) = naive_count W H b 0 0"
  using assms by (simp add: naive_count_def offsets_def)

lemma count_tr:
  assumes "3 \<le> W" "3 \<le> H"
  shows "sum_list (map (\<lambda>x. cell_at b (fst x) (snd x)) [(0, W - 2), (1, W - 2), (1, W - 1)])
     = naive_count W H b 0 (W - 1)"
  using assms by (simp add: naive_count_def offsets_def)

lemma count_bl:
  assumes "3 \<le> W" "3 \<le> H"
  shows "sum_list (map (\<lambda>x. cell_at b (fst x) (snd x)) [(H - 2, 0), (H - 2, 1), (H - 1, 1)])
     = naive_count W H b (H - 1) 0"
  using assms by (simp add: naive_count_def offsets_def)

lemma count_br:
  assumes "3 \<le> W" "3 \<le> H"
  shows "sum_list (map (\<lambda>x. cell_at b (fst x) (snd x))
           [(H - 2, W - 2), (H - 1, W - 2), (H - 2, W - 1)])
     = naive_count W H b (H - 1) (W - 1)"
  using assms by (simp add: naive_count_def offsets_def)

lemma count_right:
  assumes "3 \<le> W" "1 \<le> i" "i < H - 1"
  shows "sum_list (map (\<lambda>x. cell_at b (fst x) (snd x))
           [(i - 1, W - 1), (i + 1, W - 1), (i + 1, W - 2), (i - 1, W - 2), (i, W - 2)])
     = naive_count W H b i (W - 1)"
  using assms by (simp add: naive_count_def offsets_def)

lemma count_left:
  assumes "3 \<le> W" "1 \<le> i" "i < H - 1"
  shows "sum_list (map (\<lambda>x. cell_at b (fst x) (snd x))
           [(i - 1, 1), (i + 1, 1), (i, 1), (i - 1, 0), (i + 1, 0)])
     = naive_count W H b i 0"
  using assms by (simp add: naive_count_def offsets_def)

lemma count_bottom:
  assumes "3 \<le> H" "1 \<le> j" "j < W - 1"
  shows "sum_list (map (\<lambda>x. cell_at b (fst x) (snd x))
           [(H - 1, j - 1), (H - 1, j + 1), (H - 2, j), (H - 2, j - 1), (H - 2, j + 1)])
     = naive_count W H b (H - 1) j"
  using assms by (simp add: naive_count_def offsets_def)

lemma count_top:
  assumes "3 \<le> H" "1 \<le> j" "j < W - 1"
  shows "sum_list (map (\<lambda>x. cell_at b (fst x) (snd x))
           [(1, j - 1), (1, j + 1), (1, j), (0, j - 1), (0, j + 1)])
     = naive_count W H b 0 j"
  using assms by (simp add: naive_count_def offsets_def)


lemma interior_row:
  assumes "p \<noteq> q" "wf_board W H (heap s p)" "upd_on W H p q R s t"
    and "3 \<le> W" "1 \<le> i" "i < H - 1"
  shows "\<exists>t'. for_loop 1 (W - 1) (\<lambda>j.
            cell_stmt p q
              [(i - 1, j - 1), (i - 1, j), (i - 1, j + 1), (i, j - 1), (i, j + 1), (i + 1, j - 1),
               (i + 1, j), (i + 1, j + 1)] (i, j) (i, j)) t = Some t' \<and>
          upd_on W H p q (R \<union> {(r, c). r = i \<and> 1 \<le> c \<and> c < W - 1}) s t'"
proof (rule for_loop_rule[where I = "\<lambda>j u. upd_on W H p q (R \<union> {(r, c). r = i \<and> 1 \<le> c \<and> c < j}) s u"])
  show "1 \<le> W - 1" using assms(4) by simp
  have "R \<union> {(r, c). r = i \<and> 1 \<le> c \<and> c < (1::int)} = R" by auto
  with assms(3) show "upd_on W H p q (R \<union> {(r, c). r = i \<and> 1 \<le> c \<and> c < 1}) s t"
    by simp
next
  fix k u
  assume k: "1 \<le> k" "k < W - 1"
    and inv: "upd_on W H p q (R \<union> {(r, c). r = i \<and> 1 \<le> c \<and> c < k}) s u"
  have set_eq: "insert (i, k) (R \<union> {(r, c). r = i \<and> 1 \<le> c \<and> c < k})
      = R \<union> {(r, c). r = i \<and> 1 \<le> c \<and> c < k + 1}"
    using k by auto
  have "\<exists>t'. cell_stmt p q
              [(i - 1, k - 1), (i - 1, k), (i - 1, k + 1), (i, k - 1), (i, k + 1), (i + 1, k - 1),
               (i + 1, k), (i + 1, k + 1)] (i, k) (i, k) u = Some t' \<and>
        upd_on W H p q (insert (i, k) (R \<union> {(r, c). r = i \<and> 1 \<le> c \<and> c < k})) s t'"
  proof (rule step_upd[OF assms(1,2) inv])
    show "\<forall>x\<in>set [(i - 1, k - 1), (i - 1, k), (i - 1, k + 1), (i, k - 1), (i, k + 1),
            (i + 1, k - 1), (i + 1, k), (i + 1, k + 1)]. inside W H (fst x) (snd x)"
      using k assms(5,6) by (simp add: inside_def)
    show "inside W H i k" using k assms(5,6) by (simp add: inside_def)
    show "sum_list (map (\<lambda>x. cell_at (heap s p) (fst x) (snd x))
           [(i - 1, k - 1), (i - 1, k), (i - 1, k + 1), (i, k - 1), (i, k + 1), (i + 1, k - 1),
            (i + 1, k), (i + 1, k + 1)]) = naive_count W H (heap s p) i k"
      by (rule count_interior) (use k assms(5,6) in simp_all)
  qed
  then show "\<exists>t'. cell_stmt p q
              [(i - 1, k - 1), (i - 1, k), (i - 1, k + 1), (i, k - 1), (i, k + 1), (i + 1, k - 1),
               (i + 1, k), (i + 1, k + 1)] (i, k) (i, k) u = Some t' \<and>
        upd_on W H p q (R \<union> {(r, c). r = i \<and> 1 \<le> c \<and> c < k + 1}) s t'"
    by (simp only: set_eq)
qed

lemma interior_loop:
  assumes "p \<noteq> q" "wf_board W H (heap s p)" "upd_on W H p q R s t"
    and "3 \<le> W" "3 \<le> H"
  shows "\<exists>t'. for_loop 1 (H - 1) (\<lambda>i. for_loop 1 (W - 1) (\<lambda>j.
            cell_stmt p q
              [(i - 1, j - 1), (i - 1, j), (i - 1, j + 1), (i, j - 1), (i, j + 1), (i + 1, j - 1),
               (i + 1, j), (i + 1, j + 1)] (i, j) (i, j))) t = Some t' \<and>
          upd_on W H p q (R \<union> {(r, c). 1 \<le> r \<and> r < H - 1 \<and> 1 \<le> c \<and> c < W - 1}) s t'"
proof (rule for_loop_rule[where I = "\<lambda>i u. upd_on W H p q (R \<union> {(r, c). 1 \<le> r \<and> r < i \<and> 1 \<le> c \<and> c < W - 1}) s u"])
  show "1 \<le> H - 1" using assms(5) by simp
  have "R \<union> {(r, c). 1 \<le> r \<and> r < (1::int) \<and> 1 \<le> c \<and> c < W - 1} = R" by auto
  with assms(3) show "upd_on W H p q (R \<union> {(r, c). 1 \<le> r \<and> r < 1 \<and> 1 \<le> c \<and> c < W - 1}) s t"
    by simp
next
  fix k u
  assume k: "1 \<le> k" "k < H - 1"
    and inv: "upd_on W H p q (R \<union> {(r, c). 1 \<le> r \<and> r < k \<and> 1 \<le> c \<and> c < W - 1}) s u"
  have set_eq: "R \<union> {(r, c). 1 \<le> r \<and> r < k \<and> 1 \<le> c \<and> c < W - 1} \<union> {(r, c). r = k \<and> 1 \<le> c \<and> c < W - 1}
      = R \<union> {(r, c). 1 \<le> r \<and> r < k + 1 \<and> 1 \<le> c \<and> c < W - 1}"
    using k by auto
  from interior_row[OF assms(1,2) inv assms(4) k]
  show "\<exists>t'. for_loop 1 (W - 1) (\<lambda>j.
            cell_stmt p q
              [(k - 1, j - 1), (k - 1, j), (k - 1, j + 1), (k, j - 1), (k, j + 1), (k + 1, j - 1),
               (k + 1, j), (k + 1, j + 1)] (k, j) (k, j)) u = Some t' \<and>
        upd_on W H p q (R \<union> {(r, c). 1 \<le> r \<and> r < k + 1 \<and> 1 \<le> c \<and> c < W - 1}) s t'"
    by (simp only: set_eq)
qed


lemma lr_loop:
  assumes "p \<noteq> q" "wf_board W H (heap s p)" "upd_on W H p q R s t"
    and "3 \<le> W" "3 \<le> H"
  shows "\<exists>t'. for_loop 1 (H - 1) (\<lambda>i s.
            do {
              t \<leftarrow> cell_stmt p q
                     [(i - 1, W - 1), (i + 1, W - 1), (i + 1, W - 2), (i - 1, W - 2), (i, W - 2)]
                     (i, W - 1) (i, W - 1) s;
              cell_stmt p q
                [(i - 1, 1), (i + 1, 1), (i, 1), (i - 1, 0), (i + 1, 0)] (i, 0) (i, 0) t
            }) t = Some t' \<and>
          upd_on W H p q (R \<union> {(r, c). 1 \<le> r \<and> r < H - 1 \<and> (c = 0 \<or> c = W - 1)}) s t'"
proof (rule for_loop_rule[where I = "\<lambda>i u. upd_on W H p q (R \<union> {(r, c). 1 \<le> r \<and> r < i \<and> (c = 0 \<or> c = W - 1)}) s u"])
  show "1 \<le> H - 1" using assms(5) by simp
  have "R \<union> {(r, c). 1 \<le> r \<and> r < (1::int) \<and> (c = 0 \<or> c = W - 1)} = R" by auto
  with assms(3) show "upd_on W H p q (R \<union> {(r, c). 1 \<le> r \<and> r < 1 \<and> (c = 0 \<or> c = W - 1)}) s t"
    by simp
next
  fix k u
  assume k: "1 \<le> k" "k < H - 1"
    and inv: "upd_on W H p q (R \<union> {(r, c). 1 \<le> r \<and> r < k \<and> (c = 0 \<or> c = W - 1)}) s u"
  let ?Rk = "R \<union> {(r, c). 1 \<le> r \<and> r < k \<and> (c = 0 \<or> c = W - 1)}"
  have set_eq: "insert (k, 0) (insert (k, W - 1) ?Rk)
      = R \<union> {(r, c). 1 \<le> r \<and> r < k + 1 \<and> (c = 0 \<or> c = W - 1)}"
    using k by auto
  have "\<exists>t'. cell_stmt p q
           [(k - 1, W - 1), (k + 1, W - 1), (k + 1, W - 2), (k - 1, W - 2), (k, W - 2)]
           (k, W - 1) (k, W - 1) u = Some t' \<and>
        upd_on W H p q (insert (k, W - 1) ?Rk) s t'"
  proof (rule step_upd[OF assms(1,2) inv])
    show "\<forall>x\<in>set [(k - 1, W - 1), (k + 1, W - 1), (k + 1, W - 2), (k - 1, W - 2), (k, W - 2)].
            inside W H (fst x) (snd x)"
      using k assms(4,5) by (simp add: inside_def)
    show "inside W H k (W - 1)" using k assms(4,5) by (simp add: inside_def)
    show "sum_list (map (\<lambda>x. cell_at (heap s p) (fst x) (snd x))
           [(k - 1, W - 1), (k + 1, W - 1), (k + 1, W - 2), (k - 1, W - 2), (k, W - 2)])
          = naive_count W H (heap s p) k (W - 1)"
      by (rule count_right) (use k assms(4) in simp_all)
  qed
  then obtain u1 where u1: "cell_stmt p q
           [(k - 1, W - 1), (k + 1, W - 1), (k + 1, W - 2), (k - 1, W - 2), (k, W - 2)]
           (k, W - 1) (k, W - 1) u = Some u1"
      "upd_on W H p q (insert (k, W - 1) ?Rk) s u1"
    by blast
  have "\<exists>t'. cell_stmt p q
           [(k - 1, 1), (k + 1, 1), (k, 1), (k - 1, 0), (k + 1, 0)] (k, 0) (k, 0) u1 = Some t' \<and>
        upd_on W H p q (insert (k, 0) (insert (k, W - 1) ?Rk)) s t'"
  proof (rule step_upd[OF assms(1,2) u1(2)])
    show "\<forall>x\<in>set [(k - 1, 1), (k + 1, 1), (k, 1), (k - 1, 0), (k + 1, 0)].
            inside W H (fst x) (snd x)"
      using k assms(4,5) by (simp add: inside_def)
    show "inside W H k 0" using k assms(4,5) by (simp add: inside_def)
    show "sum_list (map (\<lambda>x. cell_at (heap s p) (fst x) (snd x))
           [(k - 1, 1), (k + 1, 1), (k, 1), (k - 1, 0), (k + 1, 0)])
          = naive_count W H (heap s p) k 0"
      by (rule count_left) (use k assms(4) in simp_all)
  qed
  then obtain u2 where u2: "cell_stmt p q
           [(k - 1, 1), (k + 1, 1), (k, 1), (k - 1, 0), (k + 1, 0)] (k, 0) (k, 0) u1 = Some u2"
      "upd_on W H p q (insert (k, 0) (insert (k, W - 1) ?Rk)) s u2"
    by blast
  from u1(1) u2 show "\<exists>t'. do {
              t \<leftarrow> cell_stmt p q
                     [(k - 1, W - 1), (k + 1, W - 1), (k + 1, W - 2), (k - 1, W - 2), (k, W - 2)]
                     (k, W - 1) (k, W - 1) u;
              cell_stmt p q
                [(k - 1, 1), (k + 1, 1), (k, 1), (k - 1, 0), (k + 1, 0)] (k, 0) (k, 0) t
            } = Some t' \<and>
        upd_on W H p q (R \<union> {(r, c). 1 \<le> r \<and> r < k + 1 \<and> (c = 0 \<or> c = W - 1)}) s t'"
    by (simp add: set_eq)
qed

lemma tb_loop:
  assumes "p \<noteq> q" "wf_board W H (heap s p)" "upd_on W H p q R s t"
    and "3 \<le> W" "3 \<le> H"
  shows "\<exists>t'. for_loop 1 (W - 1) (\<lambda>j s.
            do {
              t \<leftarrow> cell_stmt p q
                     [(H - 1, j - 1), (H - 1, j + 1), (H - 2, j), (H - 2, j - 1), (H - 2, j + 1)]
                     (H - 1, j) (H - 1, j) s;
              cell_stmt p q
                [(1, j - 1), (1, j + 1), (1, j), (0, j - 1), (0, j + 1)] (0, j) (0, j) t
            }) t = Some t' \<and>
          upd_on W H p q (R \<union> {(r, c). 1 \<le> c \<and> c < W - 1 \<and> (r = 0 \<or> r = H - 1)}) s t'"
proof (rule for_loop_rule[where I = "\<lambda>j u. upd_on W H p q (R \<union> {(r, c). 1 \<le> c \<and> c < j \<and> (r = 0 \<or> r = H - 1)}) s u"])
  show "1 \<le> W - 1" using assms(4) by simp
  have "R \<union> {(r, c). 1 \<le> c \<and> c < (1::int) \<and> (r = 0 \<or> r = H - 1)} = R" by auto
  with assms(3) show "upd_on W H p q (R \<union> {(r, c). 1 \<le> c \<and> c < 1 \<and> (r = 0 \<or> r = H - 1)}) s t"
    by simp
next
  fix k u
  assume k: "1 \<le> k" "k < W - 1"
    and inv: "upd_on W H p q (R \<union> {(r, c). 1 \<le> c \<and> c < k \<and> (r = 0 \<or> r = H - 1)}) s u"
  let ?Rk = "R \<union> {(r, c). 1 \<le> c \<and> c < k \<and> (r = 0 \<or> r = H - 1)}"
  have set_eq: "insert (0, k) (insert (H - 1, k) ?Rk)
      = R \<union> {(r, c). 1 \<le> c \<and> c < k + 1 \<and> (r = 0 \<or> r = H - 1)}"
    using k by auto
  have "\<exists>t'. cell_stmt p q
           [(H - 1, k - 1), (H - 1, k + 1), (H - 2, k), (H - 2, k - 1), (H - 2, k + 1)]
           (H - 1, k) (H - 1, k) u = Some t' \<and>
        upd_on W H p q (insert (H - 1, k) ?Rk) s t'"
  proof (rule step_upd[OF assms(1,2) inv])
    show "\<forall>x\<in>set [(H - 1, k - 1), (H - 1, k + 1), (H - 2, k), (H - 2, k - 1), (H - 2, k + 1)].
            inside W H (fst x) (snd x)"
      using k assms(4,5) by (simp add: inside_def)
    show "inside W H (H - 1) k" using k assms(4,5) by (simp add: inside_def)
    show "sum_list (map (\<lambda>x. cell_at (heap s p) (fst x) (snd x))
           [(H - 1, k - 1), (H - 1, k + 1), (H - 2, k), (H - 2, k - 1), (H - 2, k + 1)])
          = naive_count W H (heap s p) (H - 1) k"
      by (rule count_bottom) (use k assms(5) in simp_all)
  qed
  then obtain u1 where u1: "cell_stmt p q
           [(H - 1, k - 1), (H - 1, k + 1), (H - 2, k), (H - 2, k - 1), (H - 2, k + 1)]
           (H - 1, k) (H - 1, k) u = Some u1"
      "upd_on W H p q (insert (H - 1, k) ?Rk) s u1"
    by blast
  have "\<exists>t'. cell_stmt p q
           [(1, k - 1), (1, k + 1), (1, k), (0, k - 1), (0, k + 1)] (0, k) (0, k) u1 = Some t' \<and>
        upd_on W H p q (insert (0, k) (insert (H - 1, k) ?Rk)) s t'"
  proof (rule step_upd[OF assms(1,2) u1(2)])
    show "\<forall>x\<in>set [(1, k - 1), (1, k + 1), (1, k), (0, k - 1), (0, k + 1)].
            inside W H (fst x) (snd x)"
      using k assms(4,5) by (simp add: inside_def)
    show "inside W H 0 k" using k assms(4,5) by (simp add: inside_def)
    show "sum_list (map (\<lambda>x. cell_at (heap s p) (fst x) (snd x))
           [(1, k - 1), (1, k + 1), (1, k), (0, k - 1), (0, k + 1)])
          = naive_count W H (heap s p) 0 k"
      by (rule count_top) (use k assms(5) in simp_all)
  qed
  then obtain u2 where u2: "cell_stmt p q
           [(1, k - 1), (1, k + 1), (1, k), (0, k - 1), (0, k + 1)] (0, k) (0, k) u1 = Some u2"
      "upd_on W H p q (insert (0, k) (insert (H - 1, k) ?Rk)) s u2"
    by blast
  from u1(1) u2 show "\<exists>t'. do {
              t \<leftarrow> cell_stmt p q
                     [(H - 1, k - 1), (H - 1, k + 1), (H - 2, k), (H - 2, k - 1), (H - 2, k + 1)]
                     (H - 1, k) (H - 1, k) u;
              cell_stmt p q
                [(1, k - 1), (1, k + 1), (1, k), (0, k - 1), (0, k + 1)] (0, k) (0, k) t
            } = Some t' \<and>
        upd_on W H p q (R \<union> {(r, c). 1 \<le> c \<and> c < k + 1 \<and> (r = 0 \<or> r = H - 1)}) s t'"
    by (simp add: set_eq)
qed


lemma region_all:
  assumes "3 \<le> W" "3 \<le> H"
  shows "{(H - 1, 0), (0, W - 1), (0, 0)} \<union>
     ({(H - 1, W - 1)} \<union> {(r, c). 1 \<le> r \<and> r < H - 1 \<and> 1 \<le> c \<and> c < W - 1} \<union>
      {(r, c). 1 \<le> r \<and> r < H - 1 \<and> (c = 0 \<or> c = W - 1)} \<union>
      {(r, c). 1 \<le> c \<and> c < W - 1 \<and> (r = 0 \<or> r = H - 1)}) =
     {(r, c). inside W H r c}"
proof (rule set_eqI)
  fix x :: "int \<times> int"
  obtain r c where x: "x = (r, c)" by (cases x)
  show "x \<in> {(H - 1, 0), (0, W - 1), (0, 0)} \<union>
     ({(H - 1, W - 1)} \<union> {(r, c). 1 \<le> r \<and> r < H - 1 \<and> 1 \<le> c \<and> c < W - 1} \<union>
      {(r, c). 1 \<le> r \<and> r < H - 1 \<and> (c = 0 \<or> c = W - 1)} \<union>
      {(r, c). 1 \<le> c \<and> c < W - 1 \<and> (r = 0 \<or> r = H - 1)}) \<longleftrightarrow>
     x \<in> {(r, c). inside W H r c}"
    unfolding x using assms by (simp add: inside_def) presburger
qed

lemma region_but_one:
  assumes "3 \<le> W" "W < H"
  shows "{(0, W - 1), (0, 0)} \<union>
     ({(H - 1, W - 1)} \<union> {(r, c). 1 \<le> r \<and> r < H - 1 \<and> 1 \<le> c \<and> c < W - 1} \<union>
      {(r, c). 1 \<le> r \<and> r < H - 1 \<and> (c = 0 \<or> c = W - 1)} \<union>
      {(r, c). 1 \<le> c \<and> c < W - 1 \<and> (r = 0 \<or> r = H - 1)}) =
     {(r, c). inside W H r c \<and> (r, c) \<noteq> (H - 1, 0)}"
proof (rule set_eqI)
  fix x :: "int \<times> int"
  obtain r c where x: "x = (r, c)" by (cases x)
  show "x \<in> {(0, W - 1), (0, 0)} \<union>
     ({(H - 1, W - 1)} \<union> {(r, c). 1 \<le> r \<and> r < H - 1 \<and> 1 \<le> c \<and> c < W - 1} \<union>
      {(r, c). 1 \<le> r \<and> r < H - 1 \<and> (c = 0 \<or> c = W - 1)} \<union>
      {(r, c). 1 \<le> c \<and> c < W - 1 \<and> (r = 0 \<or> r = H - 1)}) \<longleftrightarrow>
     x \<in> {(r, c). inside W H r c \<and> (r, c) \<noteq> (H - 1, 0)}"
    unfolding x using assms by (simp add: inside_def) presburger
qed


lemma Avery_char:
  assumes pq: "p \<noteq> q" and wfp: "wf_board W H (heap s p)" and wfq: "wf_board W H (heap s q)"
    and W: "3 \<le> W" and WH: "W \<le> H"
  shows "\<exists>s'. Avery W H p q s = Some s' \<and>
          upd_on W H p q {(r, c). inside W H r c \<and> (W < H \<longrightarrow> (r, c) \<noteq> (H - 1, 0))} s s'"
proof -
  have H: "3 \<le> H" using W WH by simp
  \<comment> \<open>the top corners\<close>
  have "\<exists>t'. cell_stmt p q [(0, 1), (1, 1), (1, 0)] (0, 0) (0, 0) s = Some t' \<and>
          upd_on W H p q (insert (0, 0) {}) s t'"
    by (rule step_upd[OF pq wfp upd_on_refl[OF wfq] _ _ count_tl[OF W H]])
      (use W H in \<open>simp_all add: inside_def\<close>)
  then obtain s1 where s1: "cell_stmt p q [(0, 1), (1, 1), (1, 0)] (0, 0) (0, 0) s = Some s1"
    "upd_on W H p q {(0, 0)} s s1" by blast
  have "\<exists>t'. cell_stmt p q [(0, W - 2), (1, W - 2), (1, W - 1)] (0, W - 1) (0, W - 1) s1 = Some t' \<and>
          upd_on W H p q (insert (0, W - 1) {(0, 0)}) s t'"
    by (rule step_upd[OF pq wfp s1(2) _ _ count_tr[OF W H]])
      (use W H in \<open>simp_all add: inside_def\<close>)
  then obtain s2 where s2:
    "cell_stmt p q [(0, W - 2), (1, W - 2), (1, W - 1)] (0, W - 1) (0, W - 1) s1 = Some s2"
    "upd_on W H p q {(0, W - 1), (0, 0)} s s2" by blast
  have p2: "heap s2 p = heap s p" using upd_on_frame[OF s2(2)] pq by simp
  have wfq2: "wf_board W H (heap s2 q)" by (rule upd_on_wf[OF s2(2)])
  \<comment> \<open>the statement that writes row \<open>W - 1\<close> of column 0\<close>
  have "\<exists>t'. cell_stmt p q [(H - 2, 0), (H - 2, 1), (H - 1, 1)] (W - 1, 0) (W - 1, 0) s2 = Some t' \<and>
          chg_on W H q {(W - 1, 0)} s2 t'"
    by (rule cell_stmt_chg) (use W H WH wfp wfq2 p2 in \<open>simp_all add: inside_def\<close>)
  then obtain s3 where s3:
    "cell_stmt p q [(H - 2, 0), (H - 2, 1), (H - 1, 1)] (W - 1, 0) (W - 1, 0) s2 = Some s3"
    "chg_on W H q {(W - 1, 0)} s2 s3" by blast
  have p3: "heap s3 p = heap s p" using chg_on_frame[OF s3(2)] pq p2 by simp
  have wfp3: "wf_board W H (heap s3 p)" using p3 wfp by simp
  have wfq3: "wf_board W H (heap s3 q)" by (rule chg_on_wf[OF s3(2)])
  \<comment> \<open>the bottom right corner and the three loops, relative to \<open>s3\<close>\<close>
  have "\<exists>t'. cell_stmt p q [(H - 2, W - 2), (H - 1, W - 2), (H - 2, W - 1)]
               (H - 1, W - 1) (H - 1, W - 1) s3 = Some t' \<and>
          upd_on W H p q (insert (H - 1, W - 1) {}) s3 t'"
    by (rule step_upd[OF pq wfp3 upd_on_refl[OF wfq3] _ _ count_br[OF W H]])
      (use W H in \<open>simp_all add: inside_def\<close>)
  then obtain s4 where s4:
    "cell_stmt p q [(H - 2, W - 2), (H - 1, W - 2), (H - 2, W - 1)]
       (H - 1, W - 1) (H - 1, W - 1) s3 = Some s4"
    "upd_on W H p q {(H - 1, W - 1)} s3 s4" by blast
  from interior_loop[OF pq wfp3 s4(2) W H] obtain s5 where s5:
    "for_loop 1 (H - 1) (\<lambda>i. for_loop 1 (W - 1) (\<lambda>j.
            cell_stmt p q
              [(i - 1, j - 1), (i - 1, j), (i - 1, j + 1), (i, j - 1), (i, j + 1), (i + 1, j - 1),
               (i + 1, j), (i + 1, j + 1)] (i, j) (i, j))) s4 = Some s5"
    "upd_on W H p q ({(H - 1, W - 1)} \<union> {(r, c). 1 \<le> r \<and> r < H - 1 \<and> 1 \<le> c \<and> c < W - 1}) s3 s5"
    by blast
  from lr_loop[OF pq wfp3 s5(2) W H] obtain s6 where s6:
    "for_loop 1 (H - 1) (\<lambda>i s.
            do {
              t \<leftarrow> cell_stmt p q
                     [(i - 1, W - 1), (i + 1, W - 1), (i + 1, W - 2), (i - 1, W - 2), (i, W - 2)]
                     (i, W - 1) (i, W - 1) s;
              cell_stmt p q
                [(i - 1, 1), (i + 1, 1), (i, 1), (i - 1, 0), (i + 1, 0)] (i, 0) (i, 0) t
            }) s5 = Some s6"
    "upd_on W H p q ({(H - 1, W - 1)} \<union> {(r, c). 1 \<le> r \<and> r < H - 1 \<and> 1 \<le> c \<and> c < W - 1}
        \<union> {(r, c). 1 \<le> r \<and> r < H - 1 \<and> (c = 0 \<or> c = W - 1)}) s3 s6"
    by blast
  from tb_loop[OF pq wfp3 s6(2) W H] obtain s7 where s7:
    "for_loop 1 (W - 1) (\<lambda>j s.
            do {
              t \<leftarrow> cell_stmt p q
                     [(H - 1, j - 1), (H - 1, j + 1), (H - 2, j), (H - 2, j - 1), (H - 2, j + 1)]
                     (H - 1, j) (H - 1, j) s;
              cell_stmt p q
                [(1, j - 1), (1, j + 1), (1, j), (0, j - 1), (0, j + 1)] (0, j) (0, j) t
            }) s6 = Some s7"
    "upd_on W H p q ({(H - 1, W - 1)} \<union> {(r, c). 1 \<le> r \<and> r < H - 1 \<and> 1 \<le> c \<and> c < W - 1}
        \<union> {(r, c). 1 \<le> r \<and> r < H - 1 \<and> (c = 0 \<or> c = W - 1)}
        \<union> {(r, c). 1 \<le> c \<and> c < W - 1 \<and> (r = 0 \<or> r = H - 1)}) s3 s7"
    by blast
  let ?T = "{(H - 1, W - 1)} \<union> {(r, c). 1 \<le> r \<and> r < H - 1 \<and> 1 \<le> c \<and> c < W - 1}
        \<union> {(r, c). 1 \<le> r \<and> r < H - 1 \<and> (c = 0 \<or> c = W - 1)}
        \<union> {(r, c). 1 \<le> c \<and> c < W - 1 \<and> (r = 0 \<or> r = H - 1)}"
  have run: "Avery W H p q s = Some s7"
    unfolding Avery_def using s1(1) s2(1) s3(1) s4(1) s5(1) s6(1) s7(1) by simp
  have final: "upd_on W H p q {(r, c). inside W H r c \<and> (W < H \<longrightarrow> (r, c) \<noteq> (H - 1, 0))} s s7"
  proof (cases "W < H")
    case True
    have "(W - 1, 0) \<in> ?T" using True W by simp
    then have "{(W - 1, 0)} \<subseteq> ?T" by (simp only: insert_subset empty_subsetI simp_thms)
    from chg_then_upd[OF pq s3(2) s7(2) this] have "upd_on W H p q ?T s2 s7" .
    from upd_on_trans[OF pq s2(2) this] have *: "upd_on W H p q ({(0, W - 1), (0, 0)} \<union> ?T) s s7" .
    have "{(r, c). inside W H r c \<and> (W < H \<longrightarrow> (r, c) \<noteq> (H - 1, 0))}
        = {(r, c). inside W H r c \<and> (r, c) \<noteq> (H - 1, 0)}"
      using True by simp
    with * region_but_one[OF W True] show ?thesis by (simp only:)
  next
    case False
    then have eq: "W = H" using WH by simp
    have "\<exists>t'. cell_stmt p q [(H - 2, 0), (H - 2, 1), (H - 1, 1)] (H - 1, 0) (H - 1, 0) s2 = Some t' \<and>
          upd_on W H p q (insert (H - 1, 0) {(0, W - 1), (0, 0)}) s t'"
      by (rule step_upd[OF pq wfp s2(2) _ _ count_bl[OF W H]])
        (use W H in \<open>simp_all add: inside_def\<close>)
    with s3(1) eq have "upd_on W H p q {(H - 1, 0), (0, W - 1), (0, 0)} s s3" by simp
    from upd_on_trans[OF pq this s7(2)]
    have *: "upd_on W H p q ({(H - 1, 0), (0, W - 1), (0, 0)} \<union> ?T) s s7" .
    have "{(r, c). inside W H r c \<and> (W < H \<longrightarrow> (r, c) \<noteq> (H - 1, 0))}
        = {(r, c). inside W H r c}"
      using False by simp
    with * region_all[OF W H] show ?thesis by (simp only:)
  qed
  from run final show ?thesis by blast
qed

section \<open>The bit trick against the rule, on boards of zeros and ones\<close>

lemma life_bit_rule:
  assumes "a = 0 \<or> a = 1" and "0 \<le> n" and "n \<le> 8"
  shows "life_bit a n =
     (if a = 1 then (if n = 2 \<or> n = 3 then 1 else 0) else (if n = 3 then 1 else 0))"
proof -
  from assms(2,3) have "n \<in> {0, 1, 2, 3, 4, 5, 6, 7, 8}" by auto
  with assms(1) show ?thesis
    by (auto simp: life_bit_def)
qed

lemma binary_cell:
  assumes "wf_board W H b" "binary_board b" "inside W H r c"
  shows "cell_at b r c = 0 \<or> cell_at b r c = 1"
proof -
  from assms(1,3) have r: "nat r < length b" "int (length (b ! nat r)) = W"
    by (auto simp: inside_def intro: wf_row)
  from assms(3) r(2) have c: "nat c < length (b ! nat r)"
    unfolding inside_def by linarith
  from assms(2) r(1) have "list_all (\<lambda>x. x = 0 \<or> x = 1) (b ! nat r)"
    by (simp add: binary_board_def list_all_length)
  with c show ?thesis
    by (simp add: list_all_length cell_at_def)
qed

lemma naive_count_bounds:
  assumes "wf_board W H b" "binary_board b"
  shows "0 \<le> naive_count W H b r c \<and> naive_count W H b r c \<le> 8"
proof -
  define f where "f dr dc =
    (if 0 \<le> r + dr \<and> r + dr < H \<and> 0 \<le> c + dc \<and> c + dc < W
     then cell_at b (r + dr) (c + dc) else 0)" for dr dc
  have f: "0 \<le> f dr dc \<and> f dr dc \<le> 1" for dr dc
  proof (cases "inside W H (r + dr) (c + dc)")
    case True
    from binary_cell[OF assms True] True show ?thesis
      by (auto simp: f_def inside_def)
  next
    case False
    then have "f dr dc = 0" unfolding f_def inside_def by (simp only: if_False)
    then show ?thesis by simp
  qed
  have "naive_count W H b r c =
      f (-1) (-1) + f (-1) 0 + f (-1) 1 + f 0 (-1) + f 0 1 + f 1 (-1) + f 1 0 + f 1 1"
    by (simp add: naive_count_def offsets_def f_def)
  with f[of "-1" "-1"] f[of "-1" 0] f[of "-1" 1] f[of 0 "-1"] f[of 0 1] f[of 1 "-1"]
    f[of 1 0] f[of 1 1]
  show ?thesis by linarith
qed

lemma trick_cell_naive:
  assumes "wf_board W H b" "binary_board b" "inside W H r c"
  shows "trick_cell W H b r c = naive_cell W H b r c"
  using life_bit_rule[OF binary_cell[OF assms]] naive_count_bounds[OF assms(1,2), of r c]
  by (simp add: trick_cell_def naive_cell_def Let_def)

section \<open>Bounds and frame of the statements and loops\<close>

lemma cell_stmt_ok:
  assumes "wf_board W H (heap s p)" "wf_board W H (heap s q)"
    and "\<forall>x\<in>set nbrs. inside W H (fst x) (snd x)"
    and "inside W H (fst kpos) (snd kpos)" "inside W H (fst tpos) (snd tpos)"
  shows "\<exists>s'. cell_stmt p q nbrs kpos tpos s = Some s' \<and>
           wf_board W H (heap s' p) \<and> wf_board W H (heap s' q)"
  using assms by (simp add: cell_stmt_inside wf_board_upd)

lemma cell_stmt_frame:
  assumes "cell_stmt p q nbrs kpos tpos s = Some s'" "a \<noteq> q"
  shows "heap s' a = heap s a"
  using assms
  by (auto simp: cell_stmt_def wr_def bind_eq_Some_conv split: if_splits)

lemma for_loop_preserves:
  assumes "for_loop i n body s = Some s'" "P s"
    and "\<And>k t t'. P t \<Longrightarrow> body k t = Some t' \<Longrightarrow> P t'"
  shows "P s'"
  using assms
proof (induction i n body s rule: for_loop.induct)
  case (1 i n body s)
  show ?case
  proof (cases "i < n")
    case True
    with "1.prems"(1) obtain t where t: "body i s = Some t" "for_loop (i + 1) n body t = Some s'"
      by (subst (asm) for_loop.simps) (auto simp: bind_eq_Some_conv)
    from "1.prems"(3)[OF "1.prems"(2) t(1)] have "P t" .
    from "1.IH"[OF True t(1) t(2) this "1.prems"(3)] show ?thesis .
  next
    case False
    with "1.prems"(1,2) show ?thesis by (subst (asm) for_loop.simps) simp
  qed
qed

lemma loop_ok:
  assumes "1 \<le> n" "wf_board W H (heap s p) \<and> wf_board W H (heap s q)"
    and "\<And>k t. 1 \<le> k \<Longrightarrow> k < n \<Longrightarrow> wf_board W H (heap t p) \<and> wf_board W H (heap t q) \<Longrightarrow>
           \<exists>t'. body k t = Some t' \<and> wf_board W H (heap t' p) \<and> wf_board W H (heap t' q)"
  shows "\<exists>s'. for_loop 1 n body s = Some s' \<and> wf_board W H (heap s' p) \<and> wf_board W H (heap s' q)"
  by (rule for_loop_rule[where I = "\<lambda>k t. wf_board W H (heap t p) \<and> wf_board W H (heap t q)"])
    (use assms in blast)+

lemma two_stmts_ok:
  assumes "wf_board W H (heap s p) \<and> wf_board W H (heap s q)"
    and "\<forall>x\<in>set nbrs1. inside W H (fst x) (snd x)" "inside W H (fst t1) (snd t1)"
    and "\<forall>x\<in>set nbrs2. inside W H (fst x) (snd x)" "inside W H (fst t2) (snd t2)"
  shows "\<exists>s'. do { t \<leftarrow> cell_stmt p q nbrs1 t1 t1 s; cell_stmt p q nbrs2 t2 t2 t } = Some s' \<and>
           wf_board W H (heap s' p) \<and> wf_board W H (heap s' q)"
proof -
  from cell_stmt_ok[of W H s p q nbrs1 t1 t1] assms obtain u where
    u: "cell_stmt p q nbrs1 t1 t1 s = Some u" "wf_board W H (heap u p)" "wf_board W H (heap u q)"
    by blast
  from cell_stmt_ok[of W H u p q nbrs2 t2 t2] u assms obtain u' where
    "cell_stmt p q nbrs2 t2 t2 u = Some u'" "wf_board W H (heap u' p)" "wf_board W H (heap u' q)"
    by blast
  with u(1) show ?thesis by simp
qed

lemma Avery_prefix_ok:
  assumes wfp: "wf_board W H (heap s p)" and wfq: "wf_board W H (heap s q)"
    and W: "3 \<le> W" and H: "3 \<le> H"
  shows "\<exists>s2. do { s1 \<leftarrow> cell_stmt p q [(0, 1), (1, 1), (1, 0)] (0, 0) (0, 0) s;
                   cell_stmt p q [(0, W - 2), (1, W - 2), (1, W - 1)] (0, W - 1) (0, W - 1) s1 }
               = Some s2 \<and> wf_board W H (heap s2 p) \<and> wf_board W H (heap s2 q)"
  by (rule two_stmts_ok) (use assms in \<open>simp_all add: inside_def\<close>)

lemma Avery_suffix_ok:
  assumes wf: "wf_board W H (heap s p) \<and> wf_board W H (heap s q)"
    and W: "3 \<le> W" and H: "3 \<le> H"
  shows "\<exists>s'. do {
       s4 \<leftarrow> cell_stmt p q [(H - 2, W - 2), (H - 1, W - 2), (H - 2, W - 1)]
               (H - 1, W - 1) (H - 1, W - 1) s;
       s5 \<leftarrow> for_loop 1 (H - 1) (\<lambda>i.
               for_loop 1 (W - 1) (\<lambda>j.
                 cell_stmt p q
                   [(i - 1, j - 1), (i - 1, j), (i - 1, j + 1),
                    (i, j - 1), (i, j + 1), (i + 1, j - 1),
                    (i + 1, j), (i + 1, j + 1)] (i, j) (i, j))) s4;
       s6 \<leftarrow> for_loop 1 (H - 1) (\<lambda>i s.
               do {
                 t \<leftarrow> cell_stmt p q
                        [(i - 1, W - 1), (i + 1, W - 1), (i + 1, W - 2),
                         (i - 1, W - 2), (i, W - 2)] (i, W - 1) (i, W - 1) s;
                 cell_stmt p q
                   [(i - 1, 1), (i + 1, 1), (i, 1), (i - 1, 0), (i + 1, 0)] (i, 0) (i, 0) t
               }) s5;
       for_loop 1 (W - 1) (\<lambda>j s.
         do {
           t \<leftarrow> cell_stmt p q
                  [(H - 1, j - 1), (H - 1, j + 1), (H - 2, j),
                   (H - 2, j - 1), (H - 2, j + 1)] (H - 1, j) (H - 1, j) s;
           cell_stmt p q
             [(1, j - 1), (1, j + 1), (1, j), (0, j - 1), (0, j + 1)] (0, j) (0, j) t
         }) s6
     } = Some s'"
proof -
  have "\<exists>t'. cell_stmt p q [(H - 2, W - 2), (H - 1, W - 2), (H - 2, W - 1)]
               (H - 1, W - 1) (H - 1, W - 1) s = Some t' \<and>
          wf_board W H (heap t' p) \<and> wf_board W H (heap t' q)"
    by (rule cell_stmt_ok) (use assms in \<open>simp_all add: inside_def\<close>)
  then obtain s4 where s4: "cell_stmt p q [(H - 2, W - 2), (H - 1, W - 2), (H - 2, W - 1)]
               (H - 1, W - 1) (H - 1, W - 1) s = Some s4"
    "wf_board W H (heap s4 p) \<and> wf_board W H (heap s4 q)" by blast
  have "\<exists>t'. for_loop 1 (H - 1) (\<lambda>i.
               for_loop 1 (W - 1) (\<lambda>j.
                 cell_stmt p q
                   [(i - 1, j - 1), (i - 1, j), (i - 1, j + 1),
                    (i, j - 1), (i, j + 1), (i + 1, j - 1),
                    (i + 1, j), (i + 1, j + 1)] (i, j) (i, j))) s4 = Some t' \<and>
          wf_board W H (heap t' p) \<and> wf_board W H (heap t' q)"
  proof (rule loop_ok[OF _ s4(2)])
    show "1 \<le> H - 1" using H by simp
  next
    fix i and t :: state
    assume i: "1 \<le> i" "i < H - 1" and t: "wf_board W H (heap t p) \<and> wf_board W H (heap t q)"
    show "\<exists>t'. for_loop 1 (W - 1) (\<lambda>j.
                 cell_stmt p q
                   [(i - 1, j - 1), (i - 1, j), (i - 1, j + 1),
                    (i, j - 1), (i, j + 1), (i + 1, j - 1),
                    (i + 1, j), (i + 1, j + 1)] (i, j) (i, j)) t = Some t' \<and>
          wf_board W H (heap t' p) \<and> wf_board W H (heap t' q)"
    proof (rule loop_ok[OF _ t])
      show "1 \<le> W - 1" using W by simp
    next
      fix j and u :: state
      assume j: "1 \<le> j" "j < W - 1" and u: "wf_board W H (heap u p) \<and> wf_board W H (heap u q)"
      show "\<exists>t'. cell_stmt p q
                   [(i - 1, j - 1), (i - 1, j), (i - 1, j + 1),
                    (i, j - 1), (i, j + 1), (i + 1, j - 1),
                    (i + 1, j), (i + 1, j + 1)] (i, j) (i, j) u = Some t' \<and>
          wf_board W H (heap t' p) \<and> wf_board W H (heap t' q)"
        by (rule cell_stmt_ok) (use i j u in \<open>simp_all add: inside_def\<close>)
    qed
  qed
  then obtain s5 where s5: "for_loop 1 (H - 1) (\<lambda>i.
               for_loop 1 (W - 1) (\<lambda>j.
                 cell_stmt p q
                   [(i - 1, j - 1), (i - 1, j), (i - 1, j + 1),
                    (i, j - 1), (i, j + 1), (i + 1, j - 1),
                    (i + 1, j), (i + 1, j + 1)] (i, j) (i, j))) s4 = Some s5"
    "wf_board W H (heap s5 p) \<and> wf_board W H (heap s5 q)" by blast
  have "\<exists>t'. for_loop 1 (H - 1) (\<lambda>i s.
               do {
                 t \<leftarrow> cell_stmt p q
                        [(i - 1, W - 1), (i + 1, W - 1), (i + 1, W - 2),
                         (i - 1, W - 2), (i, W - 2)] (i, W - 1) (i, W - 1) s;
                 cell_stmt p q
                   [(i - 1, 1), (i + 1, 1), (i, 1), (i - 1, 0), (i + 1, 0)] (i, 0) (i, 0) t
               }) s5 = Some t' \<and>
          wf_board W H (heap t' p) \<and> wf_board W H (heap t' q)"
  proof (rule loop_ok[OF _ s5(2)])
    show "1 \<le> H - 1" using H by simp
  next
    fix i and t :: state
    assume i: "1 \<le> i" "i < H - 1" and t: "wf_board W H (heap t p) \<and> wf_board W H (heap t q)"
    show "\<exists>t'. do {
                 t \<leftarrow> cell_stmt p q
                        [(i - 1, W - 1), (i + 1, W - 1), (i + 1, W - 2),
                         (i - 1, W - 2), (i, W - 2)] (i, W - 1) (i, W - 1) t;
                 cell_stmt p q
                   [(i - 1, 1), (i + 1, 1), (i, 1), (i - 1, 0), (i + 1, 0)] (i, 0) (i, 0) t
               } = Some t' \<and>
          wf_board W H (heap t' p) \<and> wf_board W H (heap t' q)"
      by (rule two_stmts_ok[OF t]) (use i W in \<open>simp_all add: inside_def\<close>)
  qed
  then obtain s6 where s6: "for_loop 1 (H - 1) (\<lambda>i s.
               do {
                 t \<leftarrow> cell_stmt p q
                        [(i - 1, W - 1), (i + 1, W - 1), (i + 1, W - 2),
                         (i - 1, W - 2), (i, W - 2)] (i, W - 1) (i, W - 1) s;
                 cell_stmt p q
                   [(i - 1, 1), (i + 1, 1), (i, 1), (i - 1, 0), (i + 1, 0)] (i, 0) (i, 0) t
               }) s5 = Some s6"
    "wf_board W H (heap s6 p) \<and> wf_board W H (heap s6 q)" by blast
  have "\<exists>t'. for_loop 1 (W - 1) (\<lambda>j s.
         do {
           t \<leftarrow> cell_stmt p q
                  [(H - 1, j - 1), (H - 1, j + 1), (H - 2, j),
                   (H - 2, j - 1), (H - 2, j + 1)] (H - 1, j) (H - 1, j) s;
           cell_stmt p q
             [(1, j - 1), (1, j + 1), (1, j), (0, j - 1), (0, j + 1)] (0, j) (0, j) t
         }) s6 = Some t' \<and>
          wf_board W H (heap t' p) \<and> wf_board W H (heap t' q)"
  proof (rule loop_ok[OF _ s6(2)])
    show "1 \<le> W - 1" using W by simp
  next
    fix j and t :: state
    assume j: "1 \<le> j" "j < W - 1" and t: "wf_board W H (heap t p) \<and> wf_board W H (heap t q)"
    show "\<exists>t'. do {
           t \<leftarrow> cell_stmt p q
                  [(H - 1, j - 1), (H - 1, j + 1), (H - 2, j),
                   (H - 2, j - 1), (H - 2, j + 1)] (H - 1, j) (H - 1, j) t;
           cell_stmt p q
             [(1, j - 1), (1, j + 1), (1, j), (0, j - 1), (0, j + 1)] (0, j) (0, j) t
         } = Some t' \<and>
          wf_board W H (heap t' p) \<and> wf_board W H (heap t' q)"
      by (rule two_stmts_ok[OF t]) (use j H in \<open>simp_all add: inside_def\<close>)
  qed
  then obtain s7 where "for_loop 1 (W - 1) (\<lambda>j s.
         do {
           t \<leftarrow> cell_stmt p q
                  [(H - 1, j - 1), (H - 1, j + 1), (H - 2, j),
                   (H - 2, j - 1), (H - 2, j + 1)] (H - 1, j) (H - 1, j) s;
           cell_stmt p q
             [(1, j - 1), (1, j + 1), (1, j), (0, j - 1), (0, j + 1)] (0, j) (0, j) t
         }) s6 = Some s7" by blast
  with s4(1) s5(1) s6(1) show ?thesis by simp
qed

lemma Avery_out_of_bounds:
  assumes "3 \<le> H" and "H < W"
    and "wf_board W H (heap s prv)" and "wf_board W H (heap s nxt)"
  shows "Avery W H prv nxt s = None"
proof -
  have W: "3 \<le> W" using assms(1,2) by simp
  from Avery_prefix_ok[OF assms(3,4) W assms(1)] obtain s2 where s2:
    "do { s1 \<leftarrow> cell_stmt prv nxt [(0, 1), (1, 1), (1, 0)] (0, 0) (0, 0) s;
          cell_stmt prv nxt [(0, W - 2), (1, W - 2), (1, W - 1)] (0, W - 1) (0, W - 1) s1 }
       = Some s2" "wf_board W H (heap s2 prv)" "wf_board W H (heap s2 nxt)"
    by blast
  have "rd s2 prv (W - 1) 0 = None"
    using assms(2) s2(2) by (simp add: rd_def wf_in_bounds inside_def)
  then have "cell_stmt prv nxt [(H - 2, 0), (H - 2, 1), (H - 1, 1)] (W - 1, 0) (W - 1, 0) s2 = None"
    by (simp add: cell_stmt_def bind_eq_None_conv)
  with s2(1) show ?thesis
    unfolding Avery_def by (auto simp: bind_eq_Some_conv bind_eq_None_conv)
qed

lemma two_stmts_frame:
  assumes "do { t \<leftarrow> cell_stmt p q nbrs1 k1 t1 s; cell_stmt p q nbrs2 k2 t2 t } = Some s'"
    and "a \<noteq> q" "heap s a = b"
  shows "heap s' a = b"
proof -
  from assms(1) obtain t where t: "cell_stmt p q nbrs1 k1 t1 s = Some t"
    "cell_stmt p q nbrs2 k2 t2 t = Some s'"
    by (auto simp: bind_eq_Some_conv)
  from cell_stmt_frame[OF t(1) assms(2)] cell_stmt_frame[OF t(2) assms(2)] assms(3)
  show ?thesis by simp
qed

section \<open>Locality of the neighbour count\<close>

lemma naive_count_local:
  assumes agree: "\<forall>r c. inside W H r c \<and> (r, c) \<noteq> (r0, c0) \<longrightarrow> cell_at b2 r c = cell_at b1 r c"
    and far: "1 < \<bar>r - r0\<bar> \<or> 1 < \<bar>c - c0\<bar>"
  shows "naive_count W H b2 r c = naive_count W H b1 r c"
proof -
  define f where "f b dr dc =
    (if 0 \<le> r + dr \<and> r + dr < H \<and> 0 \<le> c + dc \<and> c + dc < W
     then cell_at b (r + dr) (c + dc) else 0)" for b dr dc
  have f: "f b2 dr dc = f b1 dr dc" if "\<bar>dr\<bar> \<le> 1" "\<bar>dc\<bar> \<le> 1" for dr dc
  proof (cases "inside W H (r + dr) (c + dc)")
    case True
    have "(r + dr, c + dc) \<noteq> (r0, c0)" using far that by auto
    with agree True have "cell_at b2 (r + dr) (c + dc) = cell_at b1 (r + dr) (c + dc)" by blast
    then show ?thesis by (simp add: f_def)
  next
    case False
    then have "f b2 dr dc = 0" "f b1 dr dc = 0"
      unfolding f_def inside_def by (simp_all only: if_False)
    then show ?thesis by simp
  qed
  have "naive_count W H b r c =
      f b (-1) (-1) + f b (-1) 0 + f b (-1) 1 + f b 0 (-1) + f b 0 1 + f b 1 (-1) + f b 1 0 + f b 1 1"
    for b
    by (simp add: naive_count_def offsets_def f_def)
  then show ?thesis by (simp add: f)
qed

lemma trick_cell_local:
  assumes agree: "\<forall>r c. inside W H r c \<and> (r, c) \<noteq> (r0, c0) \<longrightarrow> cell_at b2 r c = cell_at b1 r c"
    and far: "1 < \<bar>r - r0\<bar> \<or> 1 < \<bar>c - c0\<bar>" and ins: "inside W H r c"
  shows "trick_cell W H b2 r c = trick_cell W H b1 r c"
proof -
  have "(r, c) \<noteq> (r0, c0)" using far by auto
  with agree ins have "cell_at b2 r c = cell_at b1 r c" by blast
  with naive_count_local[OF agree far] show ?thesis by (simp add: trick_cell_def)
qed

section \<open>The output of a run on a board that is at least as high as wide\<close>

text \<open>
  For \<open>3 \<le> W \<le> H\<close> the run completes and every cell of the output is the reference's
  value, except that for \<open>W < H\<close> the cell in row \<open>H - 1\<close>, column 0 keeps the value the
  output buffer held before the call.
\<close>

lemma Avery_rect_equals_naive:
  assumes "3 \<le> W" and "W \<le> H" and "p \<noteq> q"
    and "wf_board W H (heap s p)" and "wf_board W H (heap s q)"
    and "binary_board (heap s p)"
  shows "\<exists>s'. Avery W H p q s = Some s' \<and>
           (\<forall>r c. inside W H r c \<and> (W < H \<longrightarrow> (r, c) \<noteq> (H - 1, 0)) \<longrightarrow>
              cell_at (heap s' q) r c = naive_cell W H (heap s p) r c) \<and>
           (W < H \<longrightarrow> cell_at (heap s' q) (H - 1) 0 = cell_at (heap s q) (H - 1) 0)"
proof -
  let ?R = "{(r, c). inside W H r c \<and> (W < H \<longrightarrow> (r, c) \<noteq> (H - 1, 0))}"
  from Avery_char[OF assms(3,4,5,1,2)] obtain s' where
    run: "Avery W H p q s = Some s'" and upd: "upd_on W H p q ?R s s'"
    by auto
  have "cell_at (heap s' q) r c = naive_cell W H (heap s p) r c"
    if "inside W H r c" "W < H \<longrightarrow> (r, c) \<noteq> (H - 1, 0)" for r c
  proof -
    from upd that have "cell_at (heap s' q) r c = trick_cell W H (heap s p) r c"
      by (simp add: upd_on_def)
    with trick_cell_naive[OF assms(4,6) that(1)] show ?thesis by simp
  qed
  moreover have "cell_at (heap s' q) (H - 1) 0 = cell_at (heap s q) (H - 1) 0" if "W < H"
  proof -
    have "inside W H (H - 1) 0" "(H - 1, 0) \<notin> ?R" using that assms(1) by (simp_all add: inside_def)
    with upd show ?thesis unfolding upd_on_def chg_on_def by blast
  qed
  ultimately show ?thesis using run by blast
qed

text \<open>
  On a square board the output does not depend on what the output buffer held, and a
  board with a single live cell gives a dead board.
\<close>

lemma Avery_square_output_function_of_prv:
  assumes "3 \<le> W" and "p \<noteq> q"
    and "wf_board W W (heap s1 p)" and "wf_board W W (heap s1 q)" and "wf_board W W (heap s2 q)"
    and "heap s2 p = heap s1 p"
  shows "\<exists>t1 t2. Avery W W p q s1 = Some t1 \<and> Avery W W p q s2 = Some t2 \<and>
           heap t1 q = heap t2 q"
proof -
  let ?R = "{(r, c). inside W W r c \<and> (W < W \<longrightarrow> (r, c) \<noteq> (W - 1, 0))}"
  from Avery_char[OF assms(2,3,4,1)] obtain t1 where
    t1: "Avery W W p q s1 = Some t1" "upd_on W W p q ?R s1 t1" by auto
  have "wf_board W W (heap s2 p)" using assms(3,6) by simp
  from Avery_char[OF assms(2) this assms(5,1)] obtain t2 where
    t2: "Avery W W p q s2 = Some t2" "upd_on W W p q ?R s2 t2" by auto
  have "heap t1 q = heap t2 q"
  proof (rule board_eqI[OF upd_on_wf[OF t1(2)] upd_on_wf[OF t2(2)]], intro allI impI)
    fix r c assume "inside W W r c"
    with t1(2) t2(2) assms(6) show "cell_at (heap t1 q) r c = cell_at (heap t2 q) r c"
      by (simp add: upd_on_def)
  qed
  with t1(1) t2(1) show ?thesis by blast
qed

lemma naive_count_single:
  assumes one: "cell_at b r0 c0 = 1"
    and rest: "\<forall>r c. inside W H r c \<and> (r, c) \<noteq> (r0, c0) \<longrightarrow> cell_at b r c = 0"
  shows "naive_count W H b r c = 0 \<or> naive_count W H b r c = 1"
proof -
  define f where "f dr dc =
    (if 0 \<le> r + dr \<and> r + dr < H \<and> 0 \<le> c + dc \<and> c + dc < W
     then cell_at b (r + dr) (c + dc) else 0)" for dr dc
  have f: "f dr dc = (if inside W H (r + dr) (c + dc) \<and> dr = r0 - r \<and> dc = c0 - c then 1 else 0)"
    for dr dc
  proof (cases "inside W H (r + dr) (c + dc)")
    case True
    show ?thesis
    proof (cases "dr = r0 - r \<and> dc = c0 - c")
      case True
      then have "r + dr = r0" "c + dc = c0" by simp_all
      with one \<open>inside W H (r + dr) (c + dc)\<close> True show ?thesis
        by (simp add: f_def inside_def)
    next
      case False
      then have "(r + dr, c + dc) \<noteq> (r0, c0)" by auto
      with rest True have "cell_at b (r + dr) (c + dc) = 0" by blast
      with False show ?thesis by (auto simp: f_def)
    qed
  next
    case False
    then have "f dr dc = 0" unfolding f_def inside_def by (simp only: if_False)
    with False show ?thesis by simp
  qed
  have "naive_count W H b r c =
      f (-1) (-1) + f (-1) 0 + f (-1) 1 + f 0 (-1) + f 0 1 + f 1 (-1) + f 1 0 + f 1 1"
    by (simp add: naive_count_def offsets_def f_def)
  then show ?thesis
    unfolding f by (auto split: if_splits)
qed

lemma Avery_square_single_cell_dies:
  assumes "3 \<le> W" and "p \<noteq> q"
    and "wf_board W W (heap s p)" and "wf_board W W (heap s q)"
    and "inside W W r0 c0" and one: "cell_at (heap s p) r0 c0 = 1"
    and rest: "\<forall>r c. inside W W r c \<and> (r, c) \<noteq> (r0, c0) \<longrightarrow> cell_at (heap s p) r c = 0"
  shows "\<exists>s'. Avery W W p q s = Some s' \<and>
           (\<forall>r c. inside W W r c \<longrightarrow> cell_at (heap s' q) r c = 0)"
proof -
  let ?R = "{(r, c). inside W W r c \<and> (W < W \<longrightarrow> (r, c) \<noteq> (W - 1, 0))}"
  from Avery_char[OF assms(2,3,4,1)] obtain s' where
    run: "Avery W W p q s = Some s'" and upd: "upd_on W W p q ?R s s'" by auto
  have "cell_at (heap s' q) r c = 0" if ins: "inside W W r c" for r c
  proof -
    from upd ins have eq: "cell_at (heap s' q) r c = trick_cell W W (heap s p) r c"
      by (simp add: upd_on_def)
    have k: "cell_at (heap s p) r c = 0 \<or> cell_at (heap s p) r c = 1"
      using one rest ins by (cases "(r, c) = (r0, c0)") auto
    from naive_count_single[OF one rest, of r c] k
    have "trick_cell W W (heap s p) r c = 0"
      by (auto simp: trick_cell_def life_bit_def)
    with eq show ?thesis by simp
  qed
  with run show ?thesis by blast
qed

section \<open>The trace of writes\<close>

text \<open>
  The index pairs \<^verbatim>\<open>Avery\<close> writes, in order: the four corner statements, the interior
  rows, the left and right edges, the bottom and top edges.
\<close>

lemma cell_stmt_writes:
  assumes "cell_stmt p q nbrs kpos tpos s = Some s'"
  shows "writes s' = writes s @ [tpos]"
  using assms
  by (auto simp: cell_stmt_def wr_def bind_eq_Some_conv split: if_splits)

lemma two_stmts_writes:
  assumes "do { t \<leftarrow> cell_stmt p q nbrs1 k1 t1 s; cell_stmt p q nbrs2 k2 t2 t } = Some s'"
  shows "writes s' = writes s @ [t1, t2]"
proof -
  from assms obtain t where t: "cell_stmt p q nbrs1 k1 t1 s = Some t"
    "cell_stmt p q nbrs2 k2 t2 t = Some s'"
    by (auto simp: bind_eq_Some_conv)
  from cell_stmt_writes[OF t(1)] cell_stmt_writes[OF t(2)] show ?thesis by simp
qed

lemma for_loop_inv:
  assumes "for_loop i n body s = Some s'" "i \<le> n" "I i s"
    and "\<And>k t t'. i \<le> k \<Longrightarrow> k < n \<Longrightarrow> I k t \<Longrightarrow> body k t = Some t' \<Longrightarrow> I (k + 1) t'"
  shows "I n s'"
  using assms
proof (induction i n body s rule: for_loop.induct)
  case (1 i n body s)
  show ?case
  proof (cases "i < n")
    case True
    with "1.prems"(1) obtain t where t: "body i s = Some t" "for_loop (i + 1) n body t = Some s'"
      by (subst (asm) for_loop.simps) (auto simp: bind_eq_Some_conv)
    from "1.prems"(4)[OF _ True "1.prems"(3) t(1)] have It: "I (i + 1) t" by simp
    show ?thesis
    proof (rule "1.IH"[OF True t(1) t(2) _ It])
      show "i + 1 \<le> n" using True by simp
      show "\<And>k t t'. i + 1 \<le> k \<Longrightarrow> k < n \<Longrightarrow> I k t \<Longrightarrow> body k t = Some t' \<Longrightarrow> I (k + 1) t'"
        using "1.prems"(4) by simp
    qed
  next
    case False
    with "1.prems"(2) have "i = n" by simp
    with "1.prems"(1,3) show ?thesis by (subst (asm) for_loop.simps) simp
  qed
qed

lemma loop_writes:
  assumes run: "for_loop 1 n body s = Some s'" and n: "1 \<le> n"
    and step: "\<And>k t t'. 1 \<le> k \<Longrightarrow> k < n \<Longrightarrow> body k t = Some t' \<Longrightarrow> writes t' = writes t @ f k"
  shows "writes s' = writes s @ concat (map f [1..n - 1])"
proof -
  have "writes s' = writes s @ concat (map f [1..n - 1])"
  proof (rule for_loop_inv[OF run n, where I = "\<lambda>k t. writes t = writes s @ concat (map f [1..k - 1])"])
    show "writes s = writes s @ concat (map f [1..1 - 1])" by simp
  next
    fix k and t t' :: state
    assume k: "1 \<le> k" "k < n" and inv: "writes t = writes s @ concat (map f [1..k - 1])"
      and b: "body k t = Some t'"
    have "[1..k] = [1..k - 1] @ [k]" using k(1) by (rule upto_rec2)
    with step[OF k b] inv show "writes t' = writes s @ concat (map f [1..k + 1 - 1])"
      by simp
  qed
  then show ?thesis .
qed

lemma Avery_writes:
  assumes run: "Avery W H p q s = Some s'" and W: "3 \<le> W" and H: "3 \<le> H"
  shows "writes s' = writes s @ [(0, 0), (0, W - 1), (W - 1, 0), (H - 1, W - 1)]
           @ concat (map (\<lambda>i. map (\<lambda>j. (i, j)) [1..W - 2]) [1..H - 2])
           @ concat (map (\<lambda>i. [(i, W - 1), (i, 0)]) [1..H - 2])
           @ concat (map (\<lambda>j. [(H - 1, j), (0, j)]) [1..W - 2])"
proof -
  from run obtain s1 s2 s3 s4 s5 s6 where
    s1: "cell_stmt p q [(0, 1), (1, 1), (1, 0)] (0, 0) (0, 0) s = Some s1" and
    s2: "cell_stmt p q [(0, W - 2), (1, W - 2), (1, W - 1)] (0, W - 1) (0, W - 1) s1 = Some s2" and
    s3: "cell_stmt p q [(H - 2, 0), (H - 2, 1), (H - 1, 1)] (W - 1, 0) (W - 1, 0) s2 = Some s3" and
    s4: "cell_stmt p q [(H - 2, W - 2), (H - 1, W - 2), (H - 2, W - 1)]
             (H - 1, W - 1) (H - 1, W - 1) s3 = Some s4" and
    s5: "for_loop 1 (H - 1) (\<lambda>i.
             for_loop 1 (W - 1) (\<lambda>j.
               cell_stmt p q
                 [(i - 1, j - 1), (i - 1, j), (i - 1, j + 1),
                  (i, j - 1), (i, j + 1), (i + 1, j - 1),
                  (i + 1, j), (i + 1, j + 1)] (i, j) (i, j))) s4 = Some s5" and
    s6: "for_loop 1 (H - 1) (\<lambda>i s.
             do {
               t \<leftarrow> cell_stmt p q
                      [(i - 1, W - 1), (i + 1, W - 1), (i + 1, W - 2),
                       (i - 1, W - 2), (i, W - 2)] (i, W - 1) (i, W - 1) s;
               cell_stmt p q
                 [(i - 1, 1), (i + 1, 1), (i, 1), (i - 1, 0), (i + 1, 0)] (i, 0) (i, 0) t
             }) s5 = Some s6" and
    s7: "for_loop 1 (W - 1) (\<lambda>j s.
       do {
         t \<leftarrow> cell_stmt p q
                [(H - 1, j - 1), (H - 1, j + 1), (H - 2, j),
                 (H - 2, j - 1), (H - 2, j + 1)] (H - 1, j) (H - 1, j) s;
         cell_stmt p q
           [(1, j - 1), (1, j + 1), (1, j), (0, j - 1), (0, j + 1)] (0, j) (0, j) t
       }) s6 = Some s'"
    unfolding Avery_def by (auto simp: bind_eq_Some_conv)
  have w4: "writes s4 = writes s @ [(0, 0), (0, W - 1), (W - 1, 0), (H - 1, W - 1)]"
    using cell_stmt_writes[OF s1] cell_stmt_writes[OF s2] cell_stmt_writes[OF s3]
      cell_stmt_writes[OF s4] by simp
  have w5: "writes s5 = writes s4 @ concat (map (\<lambda>i. map (\<lambda>j. (i, j)) [1..W - 2]) [1..H - 2])"
  proof -
    have "writes s5 = writes s4 @ concat (map (\<lambda>i. map (\<lambda>j. (i, j)) [1..W - 1 - 1]) [1..H - 1 - 1])"
    proof (rule loop_writes[OF s5])
      show "1 \<le> H - 1" using H by simp
    next
      fix i and t t' :: state
      assume inner: "for_loop 1 (W - 1) (\<lambda>j.
               cell_stmt p q
                 [(i - 1, j - 1), (i - 1, j), (i - 1, j + 1),
                  (i, j - 1), (i, j + 1), (i + 1, j - 1),
                  (i + 1, j), (i + 1, j + 1)] (i, j) (i, j)) t = Some t'"
      have "writes t' = writes t @ concat (map (\<lambda>j. [(i, j)]) [1..W - 1 - 1])"
      proof (rule loop_writes[OF inner])
        show "1 \<le> W - 1" using W by simp
      qed (rule cell_stmt_writes)
      then show "writes t' = writes t @ map (\<lambda>j. (i, j)) [1..W - 1 - 1]"
        by (simp add: concat_map_singleton)
    qed
    then show ?thesis by simp
  qed
  have w6: "writes s6 = writes s5 @ concat (map (\<lambda>i. [(i, W - 1), (i, 0)]) [1..H - 2])"
  proof -
    have "writes s6 = writes s5 @ concat (map (\<lambda>i. [(i, W - 1), (i, 0)]) [1..H - 1 - 1])"
    proof (rule loop_writes[OF s6])
      show "1 \<le> H - 1" using H by simp
    qed (rule two_stmts_writes)
    then show ?thesis by simp
  qed
  have w7: "writes s' = writes s6 @ concat (map (\<lambda>j. [(H - 1, j), (0, j)]) [1..W - 2])"
  proof -
    have "writes s' = writes s6 @ concat (map (\<lambda>j. [(H - 1, j), (0, j)]) [1..W - 1 - 1])"
    proof (rule loop_writes[OF s7])
      show "1 \<le> W - 1" using W by simp
    qed (rule two_stmts_writes)
    then show ?thesis by simp
  qed
  from w4 w5 w6 w7 show ?thesis by simp
qed

text \<open>On a square board the trace lists every cell of the board exactly once.\<close>

lemma distinct_concat_map:
  assumes "distinct xs" and "\<And>x. x \<in> set xs \<Longrightarrow> distinct (f x)"
    and "\<And>x y. x \<in> set xs \<Longrightarrow> y \<in> set xs \<Longrightarrow> x \<noteq> y \<Longrightarrow> set (f x) \<inter> set (f y) = {}"
  shows "distinct (concat (map f xs))"
  using assms
proof (induction xs)
  case Nil
  then show ?case by simp
next
  case (Cons a xs)
  have "distinct (concat (map f xs))"
    by (rule Cons.IH) (use Cons.prems in auto)
  moreover have "set (f a) \<inter> set (f y) = {}" if "y \<in> set xs" for y
    using Cons.prems(1) Cons.prems(3)[of a y] that by auto
  ultimately show ?case using Cons.prems(2)[of a] by auto
qed

lemma set_interior_trace: "set (concat (map (\<lambda>i. map (\<lambda>j. (i, j)) [1..W - 2]) [1..H - 2]))
    = {(r, c). 1 \<le> r \<and> r \<le> H - 2 \<and> 1 \<le> c \<and> c \<le> W - (2::int)}"
  by auto

lemma set_lr_trace: "set (concat (map (\<lambda>i. [(i, W - 1), (i, 0)]) [1..H - 2]))
    = {(r, c). 1 \<le> r \<and> r \<le> H - 2 \<and> (c = W - 1 \<or> c = (0::int))}"
  by auto

lemma set_tb_trace: "set (concat (map (\<lambda>j. [(H - 1, j), (0, j)]) [1..W - 2]))
    = {(r, c). 1 \<le> c \<and> c \<le> W - 2 \<and> (r = H - 1 \<or> r = (0::int))}"
  by auto

lemma distinct_interior_trace: "distinct (concat (map (\<lambda>i. map (\<lambda>j. (i, j)) [1..W - 2]) [1..H - (2::int)]))"
  by (rule distinct_concat_map) (auto simp: distinct_map inj_on_def)

lemma distinct_lr_trace:
  assumes "3 \<le> (W::int)"
  shows "distinct (concat (map (\<lambda>i. [(i, W - 1), (i, 0)]) [1..H - (2::int)]))"
  by (rule distinct_concat_map) (use assms in auto)

lemma distinct_tb_trace:
  assumes "3 \<le> (H::int)"
  shows "distinct (concat (map (\<lambda>j. [(H - 1, j), (0, j)]) [1..W - (2::int)]))"
  by (rule distinct_concat_map) (use assms in auto)


lemma square_trace_once:
  assumes "3 \<le> (W::int)"
  shows "distinct ([(0, 0), (0, W - 1), (W - 1, 0), (W - 1, W - 1)]
           @ concat (map (\<lambda>i. map (\<lambda>j. (i, j)) [1..W - 2]) [1..W - 2])
           @ concat (map (\<lambda>i. [(i, W - 1), (i, 0)]) [1..W - 2])
           @ concat (map (\<lambda>j. [(W - 1, j), (0, j)]) [1..W - 2]))"
    and "set ([(0, 0), (0, W - 1), (W - 1, 0), (W - 1, W - 1)]
           @ concat (map (\<lambda>i. map (\<lambda>j. (i, j)) [1..W - 2]) [1..W - 2])
           @ concat (map (\<lambda>i. [(i, W - 1), (i, 0)]) [1..W - 2])
           @ concat (map (\<lambda>j. [(W - 1, j), (0, j)]) [1..W - 2]))
         = {(r, c). 0 \<le> r \<and> r < W \<and> 0 \<le> c \<and> c < W}"
proof -
  let ?K = "[(0, 0), (0, W - 1), (W - 1, 0), (W - 1, W - 1)]"
  let ?A = "concat (map (\<lambda>i. map (\<lambda>j. (i, j)) [1..W - 2]) [1..W - 2])"
  let ?B = "concat (map (\<lambda>i. [(i, W - 1), (i, 0)]) [1..W - 2])"
  let ?C = "concat (map (\<lambda>j. [(W - 1, j), (0, j)]) [1..W - 2])"
  have dK: "distinct ?K" using assms by simp
  have KA: "set ?K \<inter> set ?A = {}" unfolding set_interior_trace using assms by auto
  have KB: "set ?K \<inter> set ?B = {}" unfolding set_lr_trace using assms by auto
  have KC: "set ?K \<inter> set ?C = {}" unfolding set_tb_trace using assms by auto
  have AB: "set ?A \<inter> set ?B = {}" unfolding set_interior_trace set_lr_trace using assms by auto
  have AC: "set ?A \<inter> set ?C = {}" unfolding set_interior_trace set_tb_trace using assms by auto
  have BC: "set ?B \<inter> set ?C = {}" unfolding set_lr_trace set_tb_trace using assms by auto
  show "distinct (?K @ ?A @ ?B @ ?C)"
    using dK distinct_interior_trace[of W W] distinct_lr_trace[OF assms, of W] distinct_tb_trace[OF assms, of W]
      KA KB KC AB AC BC
    by (simp only: distinct_append set_append Int_Un_distrib Int_Un_distrib2 Un_empty simp_thms)
  have "set (?K @ ?A @ ?B @ ?C) = set ?K \<union> set ?A \<union> set ?B \<union> set ?C"
    by (simp only: set_append Un_assoc)
  also have "\<dots> = {(r, c). 0 \<le> r \<and> r < W \<and> 0 \<le> c \<and> c < W}"
  proof (rule set_eqI)
    fix x :: "int \<times> int"
    obtain r c where x: "x = (r, c)" by (cases x)
    show "x \<in> set ?K \<union> set ?A \<union> set ?B \<union> set ?C \<longleftrightarrow>
        x \<in> {(r, c). 0 \<le> r \<and> r < W \<and> 0 \<le> c \<and> c < W}"
      unfolding set_interior_trace set_lr_trace set_tb_trace x using assms by simp presburger
  qed
  finally show "set (?K @ ?A @ ?B @ ?C) = {(r, c). 0 \<le> r \<and> r < W \<and> 0 \<le> c \<and> c < W}" .
qed

lemma Avery_square_writes_once:
  assumes "Avery W W p q s = Some s'" and "3 \<le> W" and "writes s = []"
  shows "distinct (writes s') \<and> set (writes s') = {(r, c). inside W W r c}"
  using Avery_writes[OF assms(1,2,2)] square_trace_once[OF assms(2)] assms(3)
  by (simp add: inside_def)

section \<open>The claims\<close>

text \<open>
  In the theorems below \<open>prv\<close> and \<open>nxt\<close> are the addresses passed to \<^verbatim>\<open>Avery\<close>, \<open>s\<close> is the
  store before the call and \<open>s'\<close> the store after it.  A result \<open>None\<close> means that some
  access was outside its array, which is undefined behaviour in C.
\<close>

subsection \<open>Two concrete runs used in the discussion\<close>

text \<open>
  On a board that is wider than high the third statement of \<^verbatim>\<open>Avery\<close> reads
  \<^verbatim>\<open>prv[WIDTH-1][0]\<close> below the last row.
\<close>

lemma Avery_4x3_out_of_bounds:
  "Avery 4 3 0 1 (two_boards dead_4x3 dead_4x3) = None"
  by (simp add: Avery_def two_boards_def dead_4x3_def cell_stmt_def rd_def wr_def
      in_bounds_def cell_at_def board_upd_def life_bit_def for_loop.simps)

text \<open>
  A call with both pointers equal overwrites the previous board while it is still being
  read; the result is not the next generation of the blinker.
\<close>

lemma Avery_aliased_changes_prv:
  "map_option (\<lambda>s. heap s 0) (Avery 3 3 0 0 (two_boards blinker_3x3 dead_3x3))
     = Some [[0, 1, 0], [1, 1, 1], [0, 1, 0]]"
  by (simp add: Avery_def two_boards_def blinker_3x3_def dead_3x3_def cell_stmt_def rd_def wr_def
      in_bounds_def cell_at_def board_upd_def life_bit_def for_loop.simps)

subsection \<open>C1: equivalence to the reference, all dimensions\<close>

text \<open>
  Claim C1 states that for every \<open>W, H \<ge> 3\<close> and every 0/1 board the output of
  \<^verbatim>\<open>Avery\<close> equals the reference at every cell.  The code does not do that when
  \<open>W \<noteq> H\<close>: the third statement writes \<^verbatim>\<open>nxt[WIDTH-1][0]\<close> where the bottom left corner
  is \<^verbatim>\<open>nxt[HEIGHT-1][0]\<close>.  For width 3 and height 4 the cell in row 3, column 0 is never
  written and keeps what the output buffer held.  On the board below, run into a zeroed
  buffer, the reference gives that cell the value 1 (a birth) and the output holds 0.
\<close>

theorem Avery_3x4_differs_from_naive:
  "map_option (\<lambda>s. heap s 1) (Avery 3 4 0 1 (two_boards birth_3x4 dead_3x4))
     = Some [[0, 0, 0], [0, 0, 0], [1, 1, 0], [0, 1, 0]] \<and>
   map (\<lambda>r. map (\<lambda>c. naive_cell 3 4 birth_3x4 r c) [0, 1, 2]) [0, 1, 2, 3]
     = [[0, 0, 0], [0, 0, 0], [1, 1, 0], [1, 1, 0]]"
  by (simp add: Avery_def two_boards_def birth_3x4_def dead_3x4_def cell_stmt_def rd_def wr_def
      in_bounds_def cell_at_def board_upd_def life_bit_def for_loop.simps naive_cell_def
      naive_count_def offsets_def)

subsection \<open>C2: the five regions tile the board\<close>

text \<open>
  Claim C2 states that for every \<open>W, H \<ge> 3\<close> every cell is written exactly once.  For
  width 3 and height 4 the trace of writes has the cell \<open>(2, 0)\<close> twice (once by the third
  corner statement, once by the left edge loop) and the cell \<open>(3, 0)\<close> not at all.
\<close>

theorem Avery_3x4_writes:
  "map_option writes (Avery 3 4 0 1 (two_boards dead_3x4 dead_3x4)) =
     Some [(0, 0), (0, 2), (2, 0), (3, 2), (1, 1), (2, 1), (1, 2), (1, 0), (2, 2), (2, 0),
           (3, 1), (0, 1)]"
  by (simp add: Avery_def two_boards_def dead_3x4_def cell_stmt_def rd_def wr_def
      in_bounds_def cell_at_def board_upd_def life_bit_def for_loop.simps)

subsection \<open>C3: every access is inside its array when \<open>3 \<le> W \<le> H\<close>\<close>

text \<open>
  Claim C3.  Under the precondition \<open>3 \<le> W \<le> H\<close>, on boards of \<open>H\<close> rows and \<open>W\<close>
  columns, every read \<^verbatim>\<open>prv[r][c]\<close> and every write \<^verbatim>\<open>nxt[r][c]\<close> of \<^verbatim>\<open>Avery\<close> has its
  indices inside the array: no access takes the out-of-bounds branch, that is, the run
  does not end in \<open>None\<close>.  (This includes the accesses with row index \<open>W - 1\<close>, and it
  holds whether or not the two pointers are equal.)
\<close>

theorem Avery_accesses_in_bounds:
  assumes "3 \<le> W" and "W \<le> H"
    and "wf_board W H (heap s prv)" and "wf_board W H (heap s nxt)"
  shows "\<exists>s'. Avery W H prv nxt s = Some s'"
proof -
  have H: "3 \<le> H" using assms(1,2) by simp
  from Avery_prefix_ok[OF assms(3,4,1) H] obtain s2 where s2:
    "do { s1 \<leftarrow> cell_stmt prv nxt [(0, 1), (1, 1), (1, 0)] (0, 0) (0, 0) s;
          cell_stmt prv nxt [(0, W - 2), (1, W - 2), (1, W - 1)] (0, W - 1) (0, W - 1) s1 }
       = Some s2" "wf_board W H (heap s2 prv)" "wf_board W H (heap s2 nxt)"
    by blast
  have "\<exists>t'. cell_stmt prv nxt [(H - 2, 0), (H - 2, 1), (H - 1, 1)] (W - 1, 0) (W - 1, 0) s2 = Some t' \<and>
          wf_board W H (heap t' prv) \<and> wf_board W H (heap t' nxt)"
    by (rule cell_stmt_ok) (use assms H s2 in \<open>simp_all add: inside_def\<close>)
  then obtain s3 where s3:
    "cell_stmt prv nxt [(H - 2, 0), (H - 2, 1), (H - 1, 1)] (W - 1, 0) (W - 1, 0) s2 = Some s3"
    "wf_board W H (heap s3 prv) \<and> wf_board W H (heap s3 nxt)" by blast
  from Avery_suffix_ok[OF s3(2) assms(1) H] obtain s' where s': "do {
       s4 \<leftarrow> cell_stmt prv nxt [(H - 2, W - 2), (H - 1, W - 2), (H - 2, W - 1)]
               (H - 1, W - 1) (H - 1, W - 1) s3;
       s5 \<leftarrow> for_loop 1 (H - 1) (\<lambda>i.
               for_loop 1 (W - 1) (\<lambda>j.
                 cell_stmt prv nxt
                   [(i - 1, j - 1), (i - 1, j), (i - 1, j + 1),
                    (i, j - 1), (i, j + 1), (i + 1, j - 1),
                    (i + 1, j), (i + 1, j + 1)] (i, j) (i, j))) s4;
       s6 \<leftarrow> for_loop 1 (H - 1) (\<lambda>i s.
               do {
                 t \<leftarrow> cell_stmt prv nxt
                        [(i - 1, W - 1), (i + 1, W - 1), (i + 1, W - 2),
                         (i - 1, W - 2), (i, W - 2)] (i, W - 1) (i, W - 1) s;
                 cell_stmt prv nxt
                   [(i - 1, 1), (i + 1, 1), (i, 1), (i - 1, 0), (i + 1, 0)] (i, 0) (i, 0) t
               }) s5;
       for_loop 1 (W - 1) (\<lambda>j s.
         do {
           t \<leftarrow> cell_stmt prv nxt
                  [(H - 1, j - 1), (H - 1, j + 1), (H - 2, j),
                   (H - 2, j - 1), (H - 2, j + 1)] (H - 1, j) (H - 1, j) s;
           cell_stmt prv nxt
             [(1, j - 1), (1, j + 1), (1, j), (0, j - 1), (0, j + 1)] (0, j) (0, j) t
         }) s6
     } = Some s'" by blast
  from s2(1) s3(1) s' have "Avery W H prv nxt s = Some s'"
    unfolding Avery_def by (auto simp: bind_eq_Some_conv)
  then show ?thesis by blast
qed

theorem Avery_accesses_in_bounds_witness:
  "(3::int) \<le> 3 \<and> (3::int) \<le> 4 \<and>
   wf_board 3 4 (heap (two_boards single_3x4 stale_3x4) 0) \<and>
   wf_board 3 4 (heap (two_boards single_3x4 stale_3x4) 1) \<and>
   (\<exists>s'. Avery 3 4 0 1 (two_boards single_3x4 stale_3x4) = Some s')"
proof -
  have w0: "wf_board 3 4 (heap (two_boards single_3x4 stale_3x4) 0)"
    and w1: "wf_board 3 4 (heap (two_boards single_3x4 stale_3x4) 1)"
    by (simp_all add: wf_board_def two_boards_def single_3x4_def stale_3x4_def)
  have le: "(3::int) \<le> 3" "(3::int) \<le> 4" by simp_all
  from Avery_accesses_in_bounds[OF le w0 w1] w0 w1 show ?thesis by simp
qed

subsection \<open>C4: the bit trick\<close>

text \<open>
  Claim C4.  For an alive flag \<open>a\<close> that is 0 or 1 and a neighbour count \<open>n\<close> between 0
  and 8, the expression \<^verbatim>\<open>(a | n) == 3\<close> is true (the stored value \<open>life_bit a n\<close> is 1)
  exactly when the B3/S23 rule makes the cell alive: for \<open>a = 1\<close> exactly when \<open>n\<close> is 2
  or 3, for \<open>a = 0\<close> exactly when \<open>n\<close> is 3.
\<close>

theorem life_bit_is_B3S23:
  assumes "a = 0 \<or> a = 1" and "0 \<le> n" and "n \<le> 8"
  shows "(life_bit a n = 1 \<longleftrightarrow> (a OR n) = 3) \<and>
         ((a OR n) = 3 \<longleftrightarrow> (a = 1 \<and> (n = 2 \<or> n = 3)) \<or> (a = 0 \<and> n = 3))"
proof -
  from assms(2,3) have "n \<in> {0, 1, 2, 3, 4, 5, 6, 7, 8}" by auto
  with assms(1) show ?thesis
    by (auto simp: life_bit_def)
qed

theorem life_bit_is_B3S23_witness:
  "((1::int) = 0 \<or> (1::int) = 1) \<and> (0::int) \<le> 2 \<and> (2::int) \<le> 8 \<and>
   life_bit 1 2 = 1 \<and> ((1::int) OR 2) = 3"
proof -
  have h1: "(1::int) = 0 \<or> (1::int) = 1" and h2: "(0::int) \<le> 2" and h3: "(2::int) \<le> 8"
    by simp_all
  from life_bit_is_B3S23[OF h1 h2 h3] show ?thesis by simp
qed

subsection \<open>C5: equivalence to the reference on square boards\<close>

text \<open>
  Claim C5.  For every square board (\<open>W = H \<ge> 3\<close>) holding zeros and ones, with the
  output buffer a board of the same dimensions at another address, \<^verbatim>\<open>Avery\<close> completes
  and every cell of the output equals the reference implementation's value for that cell.
\<close>

theorem Avery_square_equals_naive:
  assumes "3 \<le> W" and "p \<noteq> q"
    and "wf_board W W (heap s p)" and "wf_board W W (heap s q)"
    and "binary_board (heap s p)"
  shows "\<exists>s'. Avery W W p q s = Some s' \<and> wf_board W W (heap s' q) \<and>
           (\<forall>r c. inside W W r c \<longrightarrow>
              cell_at (heap s' q) r c = naive_cell W W (heap s p) r c)"
proof -
  from Avery_char[OF assms(2,3,4,1)] obtain s' where
    run: "Avery W W p q s = Some s'" and
    upd: "upd_on W W p q {(r, c). inside W W r c \<and> (W < W \<longrightarrow> (r, c) \<noteq> (W - 1, 0))} s s'"
    by auto
  have "cell_at (heap s' q) r c = naive_cell W W (heap s p) r c" if "inside W W r c" for r c
  proof -
    from upd that have "cell_at (heap s' q) r c = trick_cell W W (heap s p) r c"
      by (simp add: upd_on_def)
    with trick_cell_naive[OF assms(3,5) that] show ?thesis by simp
  qed
  with run upd_on_wf[OF upd] show ?thesis by blast
qed

theorem Avery_square_equals_naive_witness:
  "(3::int) \<le> 3 \<and> (0::nat) \<noteq> 1 \<and>
   wf_board 3 3 (heap (two_boards blinker_3x3 dead_3x3) 0) \<and>
   wf_board 3 3 (heap (two_boards blinker_3x3 dead_3x3) 1) \<and>
   binary_board (heap (two_boards blinker_3x3 dead_3x3) 0) \<and>
   (\<exists>s'. Avery 3 3 0 1 (two_boards blinker_3x3 dead_3x3) = Some s' \<and>
         cell_at (heap s' 1) 1 0 = naive_cell 3 3 blinker_3x3 1 0 \<and>
         cell_at (heap s' 1) 0 1 = naive_cell 3 3 blinker_3x3 0 1) \<and>
   naive_cell 3 3 blinker_3x3 1 0 = 1 \<and> naive_cell 3 3 blinker_3x3 0 1 = 0"
proof -
  let ?s = "two_boards blinker_3x3 dead_3x3"
  have w0: "wf_board 3 3 (heap ?s 0)" and w1: "wf_board 3 3 (heap ?s 1)"
    and b: "binary_board (heap ?s 0)"
    by (simp_all add: wf_board_def binary_board_def two_boards_def blinker_3x3_def dead_3x3_def)
  have le: "(3::int) \<le> 3" and ne: "(0::nat) \<noteq> 1" by simp_all
  from Avery_square_equals_naive[OF le ne w0 w1 b] obtain s' where
    run: "Avery 3 3 0 1 ?s = Some s'" and
    eq: "\<forall>r c. inside 3 3 r c \<longrightarrow> cell_at (heap s' 1) r c = naive_cell 3 3 (heap ?s 0) r c"
    by blast
  have p: "heap ?s 0 = blinker_3x3" by (simp add: two_boards_def)
  from eq have "cell_at (heap s' 1) 1 0 = naive_cell 3 3 blinker_3x3 1 0"
    "cell_at (heap s' 1) 0 1 = naive_cell 3 3 blinker_3x3 0 1"
    unfolding p by (simp_all add: inside_def)
  moreover have "naive_cell 3 3 blinker_3x3 1 0 = 1" "naive_cell 3 3 blinker_3x3 0 1 = 0"
    by (simp_all add: naive_cell_def naive_count_def offsets_def cell_at_def blinker_3x3_def)
  ultimately show ?thesis using run w0 w1 b by simp
qed

subsection \<open>C6: the output is a function of the previous board alone\<close>

text \<open>
  Claim C6 states that two runs on the same previous board give identical outputs
  whatever the output buffers held before.  For width 3 and height 4 they do not: the
  cell in row 3, column 0 is never written, so two runs on the same (dead) previous board
  end with different output boards when the buffers differed in that cell.
\<close>

theorem Avery_3x4_depends_on_buffer:
  "map_option (\<lambda>s. heap s 1) (Avery 3 4 0 1 (two_boards dead_3x4 dead_3x4))
     = Some [[0, 0, 0], [0, 0, 0], [0, 0, 0], [0, 0, 0]] \<and>
   map_option (\<lambda>s. heap s 1) (Avery 3 4 0 1 (two_boards dead_3x4 stale_3x4))
     = Some [[0, 0, 0], [0, 0, 0], [0, 0, 0], [1, 0, 0]]"
  by (simp add: Avery_def two_boards_def dead_3x4_def stale_3x4_def cell_stmt_def rd_def wr_def
      in_bounds_def cell_at_def board_upd_def life_bit_def for_loop.simps)

subsection \<open>C7: a single live cell dies\<close>

text \<open>
  Claim C7 states that a board with exactly one live cell gives an entirely dead output.
  For width 3 and height 4, with the live cell at \<open>(1, 1)\<close> and an output buffer that held
  1 in row 3, column 0, the output keeps that 1.
\<close>

theorem Avery_3x4_single_cell_survivor:
  "map_option (\<lambda>s. heap s 1) (Avery 3 4 0 1 (two_boards single_3x4 stale_3x4))
     = Some [[0, 0, 0], [0, 0, 0], [0, 0, 0], [1, 0, 0]]"
  by (simp add: Avery_def two_boards_def single_3x4_def stale_3x4_def cell_stmt_def rd_def wr_def
      in_bounds_def cell_at_def board_upd_def life_bit_def for_loop.simps)

subsection \<open>C8: a corner of the input does not reach far cells\<close>

text \<open>
  What the code does.  Let \<open>W, H \<ge> 3\<close>, and let two runs start from stores whose previous
  boards differ at most in one corner cell \<open>(r0, c0)\<close> and whose output buffers are equal.
  Then either both runs stop at the out-of-bounds access of the third statement (the case
  \<open>W > H\<close>), or both complete and the two outputs hold the same value at every cell whose
  row distance or column distance from the corner exceeds 2.
\<close>

lemma Avery_corner_locality_same_buffer:
  assumes W: "3 \<le> W" and H: "3 \<le> H" and pq: "prv \<noteq> nxt"
    and wf1: "wf_board W H (heap s1 prv)" and wf2: "wf_board W H (heap s2 prv)"
    and wfq: "wf_board W H (heap s1 nxt)" and same: "heap s2 nxt = heap s1 nxt"
    and corner: "(r0, c0) \<in> {(0, 0), (0, W - 1), (H - 1, 0), (H - 1, W - 1)}"
    and agree: "\<forall>r c. inside W H r c \<and> (r, c) \<noteq> (r0, c0) \<longrightarrow>
                  cell_at (heap s2 prv) r c = cell_at (heap s1 prv) r c"
  shows "rel_option
           (\<lambda>t1 t2. \<forall>r c. inside W H r c \<and> (2 < \<bar>r - r0\<bar> \<or> 2 < \<bar>c - c0\<bar>) \<longrightarrow>
                       cell_at (heap t2 nxt) r c = cell_at (heap t1 nxt) r c)
           (Avery W H prv nxt s1) (Avery W H prv nxt s2)"
proof (cases "W \<le> H")
  case True
  let ?R = "{(r, c). inside W H r c \<and> (W < H \<longrightarrow> (r, c) \<noteq> (H - 1, 0))}"
  from Avery_char[OF pq wf1 wfq W True] obtain t1 where
    t1: "Avery W H prv nxt s1 = Some t1" "upd_on W H prv nxt ?R s1 t1" by blast
  from Avery_char[OF pq wf2 _ W True] wfq same obtain t2 where
    t2: "Avery W H prv nxt s2 = Some t2" "upd_on W H prv nxt ?R s2 t2" by auto
  have "cell_at (heap t2 nxt) r c = cell_at (heap t1 nxt) r c"
    if ins: "inside W H r c" and far: "2 < \<bar>r - r0\<bar> \<or> 2 < \<bar>c - c0\<bar>" for r c
  proof (cases "(r, c) \<in> ?R")
    case True
    with t1(2) t2(2) ins have
      "cell_at (heap t1 nxt) r c = trick_cell W H (heap s1 prv) r c"
      "cell_at (heap t2 nxt) r c = trick_cell W H (heap s2 prv) r c"
      unfolding upd_on_def by blast+
    moreover have "trick_cell W H (heap s2 prv) r c = trick_cell W H (heap s1 prv) r c"
      by (rule trick_cell_local[OF agree _ ins]) (use far in linarith)
    ultimately show ?thesis by simp
  next
    case False
    with t1(2) t2(2) ins have
      "cell_at (heap t1 nxt) r c = cell_at (heap s1 nxt) r c"
      "cell_at (heap t2 nxt) r c = cell_at (heap s2 nxt) r c"
      unfolding upd_on_def chg_on_def by blast+
    with same show ?thesis by simp
  qed
  with t1(1) t2(1) show ?thesis by simp
next
  case False
  then have "H < W" by simp
  from Avery_out_of_bounds[OF H this wf1 wfq] Avery_out_of_bounds[OF H this wf2] wfq same
  show ?thesis by simp
qed

text \<open>
  Claim C8 states that for every \<open>W, H \<ge> 3\<close> and any two previous boards that differ in
  one corner cell only, the outputs agree at every cell more than 2 rows or columns away
  from that corner.  For width 3 and height 4 they need not: the cell in row 3, column 0
  is never written, so it is not a function of the previous board at all.  Below, the two
  previous boards differ in the top left corner only and the two output buffers held
  different values in row 3, column 0; the outputs differ in that cell, three rows away
  from the corner.
\<close>

theorem Avery_3x4_far_cell_differs:
  "map_option (\<lambda>s. heap s 1) (Avery 3 4 0 1 (two_boards dead_3x4 dead_3x4))
     = Some [[0, 0, 0], [0, 0, 0], [0, 0, 0], [0, 0, 0]] \<and>
   map_option (\<lambda>s. heap s 1) (Avery 3 4 0 1 (two_boards corner_3x4 stale_3x4))
     = Some [[0, 0, 0], [0, 0, 0], [0, 0, 0], [1, 0, 0]] \<and>
   corner_3x4 = board_upd dead_3x4 0 0 1"
  by (simp add: Avery_def two_boards_def dead_3x4_def corner_3x4_def stale_3x4_def
      cell_stmt_def rd_def wr_def in_bounds_def cell_at_def board_upd_def life_bit_def
      for_loop.simps)

subsection \<open>C9: nothing but the output board is written\<close>

text \<open>
  Every assignment of \<^verbatim>\<open>Avery\<close> goes through \<^verbatim>\<open>nxt\<close>: a run that completes leaves every
  board at another address as it was.
\<close>

lemma Avery_frame:
  assumes "Avery W H prv nxt s = Some s'"
  shows "(\<forall>a. a \<noteq> nxt \<longrightarrow> heap s' a = heap s a) \<and> (prv \<noteq> nxt \<longrightarrow> heap s' prv = heap s prv)"
proof -
  have "heap s' a = heap s a" if a: "a \<noteq> nxt" for a
  proof -
    from assms obtain s1 s2 s3 s4 s5 s6 where
      s1: "cell_stmt prv nxt [(0, 1), (1, 1), (1, 0)] (0, 0) (0, 0) s = Some s1" and
      s2: "cell_stmt prv nxt [(0, W - 2), (1, W - 2), (1, W - 1)] (0, W - 1) (0, W - 1) s1 = Some s2" and
      s3: "cell_stmt prv nxt [(H - 2, 0), (H - 2, 1), (H - 1, 1)] (W - 1, 0) (W - 1, 0) s2 = Some s3" and
      s4: "cell_stmt prv nxt [(H - 2, W - 2), (H - 1, W - 2), (H - 2, W - 1)]
               (H - 1, W - 1) (H - 1, W - 1) s3 = Some s4" and
      s5: "for_loop 1 (H - 1) (\<lambda>i.
               for_loop 1 (W - 1) (\<lambda>j.
                 cell_stmt prv nxt
                   [(i - 1, j - 1), (i - 1, j), (i - 1, j + 1),
                    (i, j - 1), (i, j + 1), (i + 1, j - 1),
                    (i + 1, j), (i + 1, j + 1)] (i, j) (i, j))) s4 = Some s5" and
      s6: "for_loop 1 (H - 1) (\<lambda>i s.
               do {
                 t \<leftarrow> cell_stmt prv nxt
                        [(i - 1, W - 1), (i + 1, W - 1), (i + 1, W - 2),
                         (i - 1, W - 2), (i, W - 2)] (i, W - 1) (i, W - 1) s;
                 cell_stmt prv nxt
                   [(i - 1, 1), (i + 1, 1), (i, 1), (i - 1, 0), (i + 1, 0)] (i, 0) (i, 0) t
               }) s5 = Some s6" and
      s7: "for_loop 1 (W - 1) (\<lambda>j s.
         do {
           t \<leftarrow> cell_stmt prv nxt
                  [(H - 1, j - 1), (H - 1, j + 1), (H - 2, j),
                   (H - 2, j - 1), (H - 2, j + 1)] (H - 1, j) (H - 1, j) s;
           cell_stmt prv nxt
             [(1, j - 1), (1, j + 1), (1, j), (0, j - 1), (0, j + 1)] (0, j) (0, j) t
         }) s6 = Some s'"
      unfolding Avery_def by (auto simp: bind_eq_Some_conv)
    have h4: "heap s4 a = heap s a"
      using cell_stmt_frame[OF s1 a] cell_stmt_frame[OF s2 a] cell_stmt_frame[OF s3 a]
        cell_stmt_frame[OF s4 a] by simp
    have h5: "heap s5 a = heap s a"
    proof (rule for_loop_preserves[OF s5, where P = "\<lambda>t. heap t a = heap s a"])
      show "heap s4 a = heap s a" by (rule h4)
    next
      fix i and t t' :: state
      assume t: "heap t a = heap s a"
        and run: "for_loop 1 (W - 1) (\<lambda>j.
                 cell_stmt prv nxt
                   [(i - 1, j - 1), (i - 1, j), (i - 1, j + 1),
                    (i, j - 1), (i, j + 1), (i + 1, j - 1),
                    (i + 1, j), (i + 1, j + 1)] (i, j) (i, j)) t = Some t'"
      show "heap t' a = heap s a"
      proof (rule for_loop_preserves[OF run, where P = "\<lambda>t. heap t a = heap s a"])
        show "heap t a = heap s a" by (rule t)
      next
        fix j and u u' :: state
        assume "heap u a = heap s a"
          and "cell_stmt prv nxt
                   [(i - 1, j - 1), (i - 1, j), (i - 1, j + 1),
                    (i, j - 1), (i, j + 1), (i + 1, j - 1),
                    (i + 1, j), (i + 1, j + 1)] (i, j) (i, j) u = Some u'"
        then show "heap u' a = heap s a"
          using cell_stmt_frame[OF _ a] by simp
      qed
    qed
    have h6: "heap s6 a = heap s a"
      by (rule for_loop_preserves[OF s6, where P = "\<lambda>t. heap t a = heap s a"])
        (use h5 a in \<open>auto elim: two_stmts_frame\<close>)
    show "heap s' a = heap s a"
      by (rule for_loop_preserves[OF s7, where P = "\<lambda>t. heap t a = heap s a"])
        (use h6 a in \<open>auto elim: two_stmts_frame\<close>)
  qed
  then show ?thesis by simp
qed

text \<open>
  Claim C9 as it is stated, for every input, fails for a call with both pointers equal:
  the previous board is then the output buffer and is overwritten.  On the 3 by 3 blinker
  the call \<^verbatim>\<open>Avery(b, b)\<close> completes and leaves another board at the address of \<open>prv\<close>.
\<close>

theorem Avery_aliased_call_changes_prv:
  "Avery 3 3 0 0 (two_boards blinker_3x3 dead_3x3) \<noteq> None \<and>
   heap (the (Avery 3 3 0 0 (two_boards blinker_3x3 dead_3x3))) 0
     = [[0, 1, 0], [1, 1, 1], [0, 1, 0]] \<and>
   heap (two_boards blinker_3x3 dead_3x3) 0 = [[0, 1, 0], [0, 1, 0], [0, 1, 0]]"
proof -
  from Avery_aliased_changes_prv obtain s' where
    "Avery 3 3 0 0 (two_boards blinker_3x3 dead_3x3) = Some s'"
    "heap s' 0 = [[0, 1, 0], [1, 1, 1], [0, 1, 0]]"
    by auto
  then show ?thesis by (simp add: two_boards_def blinker_3x3_def)
qed

text \<open>
  Claim C9, amended.  For \<open>3 \<le> W \<le> H\<close>, boards of \<open>H\<close> rows and \<open>W\<close> columns, and
  \<open>prv\<close> and \<open>nxt\<close> distinct buffers, \<^verbatim>\<open>Avery\<close> returns, the previous board is unchanged
  after the call, and no board other than the one at \<open>nxt\<close> is modified.
\<close>

theorem Avery_modifies_only_nxt:
  assumes "3 \<le> W" and "W \<le> H" and "prv \<noteq> nxt"
    and "wf_board W H (heap s prv)" and "wf_board W H (heap s nxt)"
  shows "\<exists>s'. Avery W H prv nxt s = Some s' \<and> heap s' prv = heap s prv \<and>
           (\<forall>a. a \<noteq> nxt \<longrightarrow> heap s' a = heap s a)"
proof -
  from Avery_char[OF assms(3,4,5,1,2)] obtain s' where run: "Avery W H prv nxt s = Some s'"
    by blast
  from Avery_frame[OF run] assms(3) run show ?thesis by blast
qed

theorem Avery_modifies_only_nxt_witness:
  "(3::int) \<le> 3 \<and> (3::int) \<le> 4 \<and> (0::nat) \<noteq> 1 \<and>
   wf_board 3 4 (heap (two_boards birth_3x4 stale_3x4) 0) \<and>
   wf_board 3 4 (heap (two_boards birth_3x4 stale_3x4) 1) \<and>
   (\<exists>s'. Avery 3 4 0 1 (two_boards birth_3x4 stale_3x4) = Some s' \<and>
         heap s' 0 = birth_3x4 \<and> heap s' 2 = stale_3x4)"
proof -
  let ?s = "two_boards birth_3x4 stale_3x4"
  have w0: "wf_board 3 4 (heap ?s 0)" and w1: "wf_board 3 4 (heap ?s 1)"
    by (simp_all add: wf_board_def two_boards_def birth_3x4_def stale_3x4_def)
  have le: "(3::int) \<le> 3" "(3::int) \<le> 4" and ne: "(0::nat) \<noteq> 1" by simp_all
  from Avery_modifies_only_nxt[OF le ne w0 w1] obtain s' where
    run: "Avery 3 4 0 1 ?s = Some s'" and p: "heap s' 0 = heap ?s 0"
    and fr: "\<forall>a. a \<noteq> 1 \<longrightarrow> heap s' a = heap ?s a"
    by blast
  from fr have "heap s' 2 = heap ?s 2" by simp
  with p have "heap s' 0 = birth_3x4" "heap s' 2 = stale_3x4"
    by (simp_all add: two_boards_def)
  with run w0 w1 show ?thesis by simp
qed

subsection \<open>C10: the command line\<close>

text \<open>
  Claim C10.  With more than two arguments, or with exactly two of which the second is
  not \<^verbatim>\<open>-nw\<close>, \<^verbatim>\<open>main\<close> only prints the usage message to standard error and returns
  \<^verbatim>\<open>EXIT_FAILURE\<close>.  Otherwise it registers the method under the name Avery, runs the
  harness and returns \<^verbatim>\<open>EXIT_SUCCESS\<close>; the flag passed to the harness is true exactly
  when the second argument \<^verbatim>\<open>-nw\<close> was given.
\<close>

theorem main_command_line:
  "(2 < length argv \<or> (length argv = 2 \<and> argv ! 1 \<noteq> ''-nw'') \<longrightarrow>
      main argv = ([Stderr (usage (argv ! 0))], EXIT_FAILURE)) \<and>
   (length argv \<le> 1 \<longrightarrow>
      main argv = ([Add_method ''Avery'', Run_game False], EXIT_SUCCESS)) \<and>
   (length argv = 2 \<and> argv ! 1 = ''-nw'' \<longrightarrow>
      main argv = ([Add_method ''Avery'', Run_game True], EXIT_SUCCESS))"
  by (auto simp: main_def Let_def)

theorem main_command_line_witness:
  "main [''life'', ''-nw'', ''-nw''] = ([Stderr (usage ''life'')], EXIT_FAILURE) \<and>
   main [''life'', ''-w''] = ([Stderr (usage ''life'')], EXIT_FAILURE) \<and>
   main [''life''] = ([Add_method ''Avery'', Run_game False], EXIT_SUCCESS) \<and>
   main [''life'', ''-nw''] = ([Add_method ''Avery'', Run_game True], EXIT_SUCCESS)"
  using main_command_line[of "[''life'', ''-nw'', ''-nw'']"] main_command_line[of "[''life'', ''-w'']"]
    main_command_line[of "[''life'']"] main_command_line[of "[''life'', ''-nw'']"]
  by simp

end
